theory Spec2Isabelle
  imports Main "HOL-Library.List_Lexorder" "HOL-Library.AList"
begin

section \<open>Python values\<close>

text \<open>
  A Python \<open>str\<close> is a sequence of Unicode code points; a code point is a natural number.
  With the lexicographic order on lists this is also the order \<open>sorted\<close> uses on strings.
  \<open>py_str\<close> embeds an ASCII literal of the source.
\<close>

type_synonym pystr = "nat list"

definition py_str :: "string \<Rightarrow> pystr" where
  "py_str s = map of_char s"

text \<open>
  \<open>str.isspace\<close> on one code point, as CPython's table of white space has it; this is the
  set \<open>str.strip()\<close> removes when it is called without an argument.
\<close>

definition isspace :: "nat \<Rightarrow> bool" where
  "isspace c \<longleftrightarrow>
     (9 \<le> c \<and> c \<le> 13) \<or> (28 \<le> c \<and> c \<le> 32) \<or> c = 133 \<or> c = 160 \<or> c = 5760 \<or>
     (8192 \<le> c \<and> c \<le> 8202) \<or> c = 8232 \<or> c = 8233 \<or> c = 8239 \<or> c = 8287 \<or> c = 12288"

definition strip :: "pystr \<Rightarrow> pystr" where
  "strip s = rev (dropWhile isspace (rev (dropWhile isspace s)))"

text \<open>\<open>str(n)\<close> for a non-negative integer: its decimal digits, most significant first.\<close>

fun str_int :: "nat \<Rightarrow> pystr" where
  "str_int n = (if n < 10 then [48 + n] else str_int (n div 10) @ [48 + n mod 10])"

declare str_int.simps [simp del]

text \<open>
  The format specification \<open>{counter:03d}\<close>: the decimal digits, padded on the left with
  \<open>0\<close> up to width 3. The counter of the source starts at 1 and is only incremented, so
  it is a natural number.
\<close>

definition format_03d :: "nat \<Rightarrow> pystr" where
  "format_03d n = (let s = str_int n in replicate (3 - length s) 48 @ s)"

text \<open>The f-string \<open>f"{prefix}-{counter:03d}"\<close>.\<close>

definition new_id :: "pystr \<Rightarrow> nat \<Rightarrow> pystr" where
  "new_id prefix counter = prefix @ [45] @ format_03d counter"

text \<open>
  A Python \<open>dict\<close> keeps its keys in insertion order: an association list with distinct keys.
  \<open>d[k] = v\<close> is \<^const>\<open>AList.update\<close> (replace in place, or append), \<open>d.get(k)\<close> is
  \<^const>\<open>map_of\<close>, \<open>d.items()\<close> is the list itself.

  A Python \<open>set\<close> is kept as the list of its members in some iteration order. The source
  only tests membership and emptiness of its sets and takes their \<open>len\<close>, so the model
  reads such a list through \<^const>\<open>set\<close> only.
\<close>

type_synonym ('k, 'v) dict = "('k \<times> 'v) list"

type_synonym 'a pyset = "'a list"

definition set_add :: "'a \<Rightarrow> 'a pyset \<Rightarrow> 'a pyset" where
  "set_add x s = (if x \<in> set s then s else s @ [x])"

definition set_of_list :: "'a list \<Rightarrow> 'a pyset" where
  "set_of_list xs = rev (remdups (rev xs))"

definition set_len :: "'a pyset \<Rightarrow> nat" where
  "set_len s = length (remdups s)"


section \<open>The identifier assigner\<close>

subsection \<open>Data\<close>

text \<open>
  The entries of \<open>all_elements\<close>: \<open>{'element': ..., 'type': ..., 'guid': ...}\<close>. The host's
  element object is only used to read the guid, so the record keeps the guid and the type.
\<close>

record 'g elem_data =
  guid :: 'g
  type :: pystr

text \<open>\<open>self.element_prefixes\<close> and the fallback of \<open>.get(element_type, 'GEN')\<close>.\<close>

definition element_prefixes :: "pystr \<rightharpoonup> pystr" where
  "element_prefixes = map_of
     [(py_str ''Wall'', py_str ''W''), (py_str ''Slab'', py_str ''S''),
      (py_str ''Beam'', py_str ''B''), (py_str ''Column'', py_str ''C''),
      (py_str ''Roof'', py_str ''R''), (py_str ''CurtainWall'', py_str ''CW''),
      (py_str ''Stair'', py_str ''ST''), (py_str ''Railing'', py_str ''RL''),
      (py_str ''Door'', py_str ''D''), (py_str ''Window'', py_str ''WIN''),
      (py_str ''Skylight'', py_str ''SK''), (py_str ''Zone'', py_str ''Z''),
      (py_str ''Mesh'', py_str ''M''), (py_str ''Morph'', py_str ''MO''),
      (py_str ''Shell'', py_str ''SH''), (py_str ''Object'', py_str ''O'')]"

definition prefix_of :: "(pystr \<rightharpoonup> pystr) \<Rightarrow> pystr \<Rightarrow> pystr" where
  "prefix_of prefixes element_type =
     (case prefixes element_type of Some p \<Rightarrow> p | None \<Rightarrow> py_str ''GEN'')"

record 'g analysis =
  total_elements :: nat
  unique_ids :: nat
  empty_ids :: nat
  duplicate_count :: nat
  elements_needing_new_ids :: "'g pyset"
  existing_unique_ids :: "pystr pyset"
  duplicate_elements :: "('g, pystr) dict"


subsection \<open>\<open>get_existing_ids_bulk\<close>\<close>

text \<open>
  The host answers with one value per element, already turned into a string (\<open>''\<close> when
  the property has no value); the loop stores \<open>existing_ids[elements[i]['guid']]\<close> for every
  answer that has an element.
\<close>

definition get_existing_ids_bulk :: "'g elem_data list \<Rightarrow> pystr list \<Rightarrow> ('g, pystr) dict" where
  "get_existing_ids_bulk elements all_id_values =
     foldl (\<lambda>existing_ids (elem, v). AList.update (guid elem) v existing_ids) []
       (zip elements all_id_values)"


subsection \<open>\<open>analyze_existing_ids\<close>\<close>

text \<open>The first loop: \<open>id_counts\<close> and the list \<open>empty_ids\<close> (here \<open>empties\<close>; the
  record field of that name is its length), one item of \<open>existing_ids\<close> at a time.\<close>

definition count_step ::
  "(pystr, 'g list) dict \<times> 'g list \<Rightarrow> 'g \<times> pystr \<Rightarrow> (pystr, 'g list) dict \<times> 'g list" where
  "count_step st item =
     (case (st, item) of ((id_counts, empties), (element_guid, element_id)) \<Rightarrow>
        if element_id = [] \<or> strip element_id = [] then (id_counts, empties @ [element_guid])
        else
          let clean_id = strip element_id in
          (case map_of id_counts clean_id of
             None \<Rightarrow> (AList.update clean_id [element_guid] id_counts, empties)
           | Some guids \<Rightarrow> (AList.update clean_id (guids @ [element_guid]) id_counts, empties)))"

text \<open>The second loop: \<open>duplicate_ids\<close> and the set \<open>unique_ids\<close> (here \<open>unique\<close>), one item of \<open>id_counts\<close> at a time.\<close>

definition classify_step ::
  "('g, pystr) dict \<times> pystr pyset \<Rightarrow> pystr \<times> 'g list \<Rightarrow> ('g, pystr) dict \<times> pystr pyset" where
  "classify_step st item =
     (case (st, item) of ((duplicate_ids, unique), (element_id, element_guids)) \<Rightarrow>
        if length element_guids > 1
        then (foldl (\<lambda>d g. AList.update g element_id d) duplicate_ids element_guids, unique)
        else (duplicate_ids, set_add element_id unique))"

definition analyze_existing_ids :: "('g, pystr) dict \<Rightarrow> 'g analysis" where
  "analyze_existing_ids existing_ids =
     (let (id_counts, empties) = foldl count_step ([], []) existing_ids;
          (duplicate_ids, unique) = foldl classify_step ([], []) id_counts;
          needing = set_of_list (empties @ map fst duplicate_ids)
      in \<lparr> total_elements = length existing_ids,
           unique_ids = set_len unique,
           empty_ids = length empties,
           duplicate_count = length duplicate_ids,
           elements_needing_new_ids = needing,
           existing_unique_ids = unique,
           duplicate_elements = duplicate_ids \<rparr>)"


subsection \<open>\<open>generate_new_ids_for_problem_elements\<close>\<close>

text \<open>
  Reading the digits back, as \<open>int(s)\<close> does: the counter can be recovered from its
  rendering, so the rendering loses nothing and different counters give different strings.
\<close>

definition int_of_digits :: "pystr \<Rightarrow> nat" where
  "int_of_digits s = foldl (\<lambda>a d. 10 * a + (d - 48)) 0 s"

lemma int_of_digits_snoc: "int_of_digits (s @ [d]) = 10 * int_of_digits s + (d - 48)"
  by (simp add: int_of_digits_def)

lemma int_of_digits_str_int: "int_of_digits (str_int n) = n"
proof (induction n rule: str_int.induct)
  case (1 n)
  show ?case
  proof (cases "n < 10")
    case True
    then show ?thesis by (simp add: str_int.simps [of n] int_of_digits_def)
  next
    case False
    with 1 have "int_of_digits (str_int (n div 10)) = n div 10" by simp
    with False show ?thesis
      by (simp add: str_int.simps [of n] int_of_digits_snoc)
  qed
qed

lemma int_of_digits_zeros: "int_of_digits (replicate k 48 @ s) = int_of_digits s"
proof -
  have "foldl (\<lambda>a d. 10 * a + (d - 48)) 0 (replicate k (48::nat)) = (0::nat)"
    by (induction k) simp_all
  then show ?thesis by (simp add: int_of_digits_def)
qed

lemma int_of_digits_format_03d: "int_of_digits (format_03d n) = n"
  by (simp add: format_03d_def Let_def int_of_digits_zeros int_of_digits_str_int)

lemma format_03d_inj: "format_03d m = format_03d n \<Longrightarrow> m = n"
  by (metis int_of_digits_format_03d)

lemma new_id_inj: "new_id prefix m = new_id prefix n \<Longrightarrow> m = n"
  by (simp add: new_id_def format_03d_inj)

lemma finite_reserved_counters: "finite {k. new_id prefix k \<in> set r}"
proof -
  have "inj (new_id prefix)" by (rule injI) (rule new_id_inj)
  then have "finite (new_id prefix -` set r)" by (simp add: finite_vimageI)
  then show ?thesis by (simp add: vimage_def)
qed

text \<open>
  The search \<open>while True: new_id = ...; if new_id not in all_reserved_ids: break; counter += 1\<close>.
  It stops because the reserved set is finite and different counters give different strings.
\<close>

function find_free :: "pystr \<Rightarrow> nat \<Rightarrow> pystr pyset \<Rightarrow> nat" where
  "find_free prefix counter all_reserved_ids =
     (if new_id prefix counter \<in> set all_reserved_ids
      then find_free prefix (counter + 1) all_reserved_ids
      else counter)"
  by pat_completeness auto
termination
proof (relation "measure (\<lambda>(prefix, counter, r). card {k. counter \<le> k \<and> new_id prefix k \<in> set r})")
  show "wf (measure (\<lambda>(prefix, counter, r). card {k. counter \<le> k \<and> new_id prefix k \<in> set r}))"
    by simp
next
  fix prefix :: pystr and counter :: nat and r :: "pystr pyset"
  assume taken: "new_id prefix counter \<in> set r"
  let ?A = "{k. counter + 1 \<le> k \<and> new_id prefix k \<in> set r}"
  let ?B = "{k. counter \<le> k \<and> new_id prefix k \<in> set r}"
  have fin: "finite ?B"
    by (rule finite_subset [OF _ finite_reserved_counters [of prefix r]]) auto
  have "counter \<in> ?B" and "counter \<notin> ?A" using taken by simp_all
  moreover have "?A \<subseteq> ?B" by auto
  ultimately have "?A \<subset> ?B" by blast
  then have "card ?A < card ?B" using fin by (rule psubset_card_mono [rotated])
  then show "((prefix, counter + 1, r), (prefix, counter, r))
      \<in> measure (\<lambda>(prefix, counter, r). card {k. counter \<le> k \<and> new_id prefix k \<in> set r})"
    by simp
qed

declare find_free.simps [simp del]


text \<open>\<open>problem_elements\<close>: the elements whose guid is in \<open>elements_needing_new_ids\<close>, in input order.\<close>

definition problem_elements :: "'g elem_data list \<Rightarrow> 'g pyset \<Rightarrow> 'g elem_data list" where
  "problem_elements elements needing = filter (\<lambda>elem_data. guid elem_data \<in> set needing) elements"

text \<open>
  \<open>elements_by_type\<close>, a \<open>defaultdict(list)\<close>: \<open>elements_by_type[t].append(elem_data)\<close> makes the
  entry for \<open>t\<close> on its first use, so the types are kept in the order of their first element.
\<close>

definition group_step ::
  "(pystr, 'g elem_data list) dict \<Rightarrow> 'g elem_data \<Rightarrow> (pystr, 'g elem_data list) dict" where
  "group_step elements_by_type elem_data =
     (case map_of elements_by_type (type elem_data) of
        None \<Rightarrow> AList.update (type elem_data) [elem_data] elements_by_type
      | Some es \<Rightarrow> AList.update (type elem_data) (es @ [elem_data]) elements_by_type)"

definition elements_by_type :: "'g elem_data list \<Rightarrow> (pystr, 'g elem_data list) dict" where
  "elements_by_type problem = foldl group_step [] problem"

text \<open>
  The body of \<open>for elem_data in type_elements\<close>: search from the current counter, store the
  identifier, reserve it, go on from the next counter. The state is
  \<open>(new_id_mapping, all_reserved_ids)\<close>.
\<close>

fun assign_type_elements ::
  "pystr \<Rightarrow> nat \<Rightarrow> 'g elem_data list \<Rightarrow> ('g, pystr) dict \<times> pystr pyset
     \<Rightarrow> ('g, pystr) dict \<times> pystr pyset" where
  "assign_type_elements prefix counter [] st = st"
| "assign_type_elements prefix counter (elem_data # rest) (new_id_mapping, all_reserved_ids) =
     (let c = find_free prefix counter all_reserved_ids;
          nid = new_id prefix c
      in assign_type_elements prefix (c + 1) rest
           (AList.update (guid elem_data) nid new_id_mapping, set_add nid all_reserved_ids))"

text \<open>
  The body of \<open>for element_type, type_elements in elements_by_type.items()\<close>: the prefix, the
  first search from 1 (\<open>while f"{prefix}-{counter:03d}" in all_reserved_ids: counter += 1\<close>),
  then the elements of the type.
\<close>

definition assign_type ::
  "(pystr \<rightharpoonup> pystr) \<Rightarrow> ('g, pystr) dict \<times> pystr pyset \<Rightarrow> pystr \<times> 'g elem_data list
     \<Rightarrow> ('g, pystr) dict \<times> pystr pyset" where
  "assign_type prefixes st item =
     (case item of (element_type, type_elements) \<Rightarrow>
        let prefix = prefix_of prefixes element_type;
            counter = find_free prefix 1 (snd st)
        in assign_type_elements prefix counter type_elements st)"

definition generate_new_ids_for_problem_elements ::
  "(pystr \<rightharpoonup> pystr) \<Rightarrow> 'g elem_data list \<Rightarrow> 'g analysis \<Rightarrow> ('g, pystr) dict" where
  "generate_new_ids_for_problem_elements prefixes elements analysis =
     (if elements_needing_new_ids analysis = [] then []
      else
        let problem = problem_elements elements (elements_needing_new_ids analysis);
            all_reserved_ids = set_of_list (existing_unique_ids analysis)
        in fst (foldl (assign_type prefixes) ([], all_reserved_ids) (elements_by_type problem)))"


subsection \<open>Steps 1 to 4 of \<open>assign_unique_ids_to_all_elements\<close>\<close>

text \<open>
  The snapshot of the host is the list of \<open>(element, type, existing identifier)\<close> triples, the
  element given by its guid. The run reads the elements and their identifiers, analyses them
  and generates the mapping; writing the mapping back to the host is not part of the model.
\<close>

definition elements_of :: "('g \<times> pystr \<times> pystr) list \<Rightarrow> 'g elem_data list" where
  "elements_of triples = map (\<lambda>(g, t, i). \<lparr> guid = g, type = t \<rparr>) triples"

definition existing_ids_of :: "('g \<times> pystr \<times> pystr) list \<Rightarrow> ('g, pystr) dict" where
  "existing_ids_of triples =
     get_existing_ids_bulk (elements_of triples) (map (\<lambda>(g, t, i). i) triples)"

definition new_id_mapping_of ::
  "(pystr \<rightharpoonup> pystr) \<Rightarrow> ('g \<times> pystr \<times> pystr) list \<Rightarrow> ('g, pystr) dict" where
  "new_id_mapping_of prefixes triples =
     generate_new_ids_for_problem_elements prefixes (elements_of triples)
       (analyze_existing_ids (existing_ids_of triples))"


section \<open>The metadata extractor\<close>










section \<open>The notions of the specification\<close>

text \<open>The elements that hold the trimmed identifier \<open>s\<close>, in input order.\<close>

definition holders :: "('g \<times> pystr) list \<Rightarrow> pystr \<Rightarrow> 'g list" where
  "holders ids s = map fst (filter (\<lambda>(g, i). strip i = s) ids)"

text \<open>The identifiers of a snapshot, each with the element that has it.\<close>

definition triple_ids :: "('g \<times> pystr \<times> pystr) list \<Rightarrow> ('g \<times> pystr) list" where
  "triple_ids triples = map (\<lambda>(g, t, i). (g, i)) triples"

text \<open>
  The smallest counter at or above the current one whose candidate is not reserved; the
  elements of one type, each continuing from the counter after the one just used; and the
  types in the order in which they are discovered (the order of their first elements), each
  starting at 1.
\<close>

fun first_occurrences :: "'a list \<Rightarrow> 'a list" where
  "first_occurrences [] = []"
| "first_occurrences (x # xs) = x # filter (\<lambda>y. y \<noteq> x) (first_occurrences xs)"

definition spec_next_counter :: "pystr \<Rightarrow> nat \<Rightarrow> pystr pyset \<Rightarrow> nat" where
  "spec_next_counter P counter reserved = (LEAST C. counter \<le> C \<and> new_id P C \<notin> set reserved)"

fun spec_assign_type ::
  "pystr \<Rightarrow> nat \<Rightarrow> 'g elem_data list \<Rightarrow> ('g, pystr) dict \<times> pystr pyset
     \<Rightarrow> ('g, pystr) dict \<times> pystr pyset" where
  "spec_assign_type P counter [] st = st"
| "spec_assign_type P counter (e # es) (mapping, reserved) =
     (let C = spec_next_counter P counter reserved;
          candidate = new_id P C
      in spec_assign_type P (C + 1) es
           (AList.update (guid e) candidate mapping, set_add candidate reserved))"

definition spec_generate ::
  "(pystr \<rightharpoonup> pystr) \<Rightarrow> 'g elem_data list \<Rightarrow> 'g analysis \<Rightarrow> ('g, pystr) dict" where
  "spec_generate prefixes elements a =
     (let needy = filter (\<lambda>e. guid e \<in> set (elements_needing_new_ids a)) elements;
          types = first_occurrences (map type needy)
      in fst (foldl
           (\<lambda>st t. spec_assign_type (prefix_of prefixes t) 1 (filter (\<lambda>e. type e = t) needy) st)
           ([], set_of_list (existing_unique_ids a)) types))"

text \<open>
  What the host holds for an element once the mapping has been written back: the assigned
  identifier when the element is in the mapping, the existing identifier, as it is stored
  and untrimmed, otherwise.
\<close>

definition final_identifier :: "('g, pystr) dict \<Rightarrow> 'g \<times> pystr \<times> pystr \<Rightarrow> pystr" where
  "final_identifier new_id_mapping triple =
     (case triple of (g, t, i) \<Rightarrow> (case map_of new_id_mapping g of Some v \<Rightarrow> v | None \<Rightarrow> i))"

text \<open>
  The invariant of the assignment loops, for a set \<open>U\<close> of identifiers that were reserved
  at the start: the assigned values are distinct, reserved, and none of them is in \<open>U\<close>.
\<close>

definition reserved_inv :: "pystr set \<Rightarrow> ('g, pystr) dict \<times> pystr pyset \<Rightarrow> bool" where
  "reserved_inv U st \<longleftrightarrow>
     distinct (map snd (fst st)) \<and> snd ` set (fst st) \<subseteq> set (snd st) \<and>
     snd ` set (fst st) \<inter> U = {} \<and> U \<subseteq> set (snd st)"


section \<open>Example inputs\<close>

text \<open>The example of the specification, four elements \<open>E1\<close> to \<open>E4\<close>.\<close>

datatype example_element = E1 | E2 | E3 | E4

definition example_triples :: "(example_element \<times> pystr \<times> pystr) list" where
  "example_triples =
     [(E1, py_str ''Wall'', py_str ''W-001''), (E2, py_str ''Wall'', py_str ''W-001''),
      (E3, py_str ''Wall'', py_str ''W-005''), (E4, py_str ''Beam'', [])]"

text \<open>The same identifiers with white space around them, and one of white space only.\<close>

definition spaced_ids :: "(example_element \<times> pystr) list" where
  "spaced_ids =
     [(E1, py_str '' W-001''), (E2, py_str ''W-001  ''), (E3, py_str ''W-005''), (E4, py_str ''   '')]"

text \<open>A run of \<open>n\<close> walls without identifiers, the elements numbered from 0.\<close>

definition wall_run :: "nat \<Rightarrow> (nat \<times> pystr \<times> pystr) list" where
  "wall_run n = map (\<lambda>j. (j, py_str ''Wall'', [])) [0..<n]"


section \<open>Properties of the identifier assigner\<close>

subsection \<open>Sets and dictionaries\<close>

lemma set_set_add [simp]: "set (set_add x s) = insert x (set s)"
  by (auto simp: set_add_def)

lemma distinct_set_add: "distinct s \<Longrightarrow> distinct (set_add x s)"
  by (simp add: set_add_def)

lemma set_set_of_list [simp]: "set (set_of_list xs) = set xs"
  by (simp add: set_of_list_def)

lemma distinct_set_of_list: "distinct (set_of_list xs)"
  by (simp add: set_of_list_def)

lemma update_entries: "set (AList.update k v al) \<subseteq> insert (k, v) (set al)"
  by (induction al) auto

lemma update_values: "snd ` set (AList.update k v al) \<subseteq> insert v (snd ` set al)"
  using update_entries [of k v al] by force

lemma update_values_distinct:
  "distinct (map snd al) \<Longrightarrow> v \<notin> snd ` set al \<Longrightarrow> distinct (map snd (AList.update k v al))"
proof (induction al)
  case Nil
  then show ?case by simp
next
  case (Cons p al)
  then show ?case using update_values [of k v al] by (cases p) auto
qed

lemma update_fresh: "k \<notin> fst ` set al \<Longrightarrow> AList.update k v al = al @ [(k, v)]"
  by (induction al) auto

lemma update_present:
  "distinct ks \<Longrightarrow> k \<in> set ks \<Longrightarrow>
   AList.update k v (map (\<lambda>k'. (k', f k')) ks) = map (\<lambda>k'. (k', if k' = k then v else f k')) ks"
  by (induction ks) auto

subsection \<open>The search for a free counter\<close>

lemma find_free_free: "new_id prefix (find_free prefix counter r) \<notin> set r"
  by (induction prefix counter r rule: find_free.induct) (simp add: find_free.simps)

lemma find_free_ge: "counter \<le> find_free prefix counter r"
proof (induction prefix counter r rule: find_free.induct)
  case (1 prefix counter r)
  then show ?case by (cases "new_id prefix counter \<in> set r") (simp_all add: find_free.simps [of prefix counter r])
qed

lemma find_free_below:
  "counter \<le> k \<Longrightarrow> k < find_free prefix counter r \<Longrightarrow> new_id prefix k \<in> set r"
proof (induction prefix counter r rule: find_free.induct)
  case (1 prefix counter r)
  show ?case
  proof (cases "new_id prefix counter \<in> set r")
    case True
    show ?thesis
    proof (cases "k = counter")
      case True
      with \<open>new_id prefix counter \<in> set r\<close> show ?thesis by simp
    next
      case False
      with 1 True show ?thesis by (simp add: find_free.simps [of prefix counter r])
    qed
  next
    case False
    with 1 show ?thesis by (simp add: find_free.simps [of prefix counter r])
  qed
qed

lemma find_free_cong: "set r = set r' \<Longrightarrow> find_free prefix counter r = find_free prefix counter r'"
proof (induction prefix counter r rule: find_free.induct)
  case (1 prefix counter r)
  then show ?case
    by (cases "new_id prefix counter \<in> set r")
       (simp_all add: find_free.simps [of prefix counter r] find_free.simps [of prefix counter r'])
qed

lemma find_free_here: "new_id prefix counter \<notin> set r \<Longrightarrow> find_free prefix counter r = counter"
  by (simp add: find_free.simps [of prefix counter r])

lemma find_free_idem: "find_free prefix (find_free prefix counter r) r = find_free prefix counter r"
  by (simp add: find_free_here find_free_free)

lemma find_free_Least:
  "find_free prefix counter r = (LEAST c. counter \<le> c \<and> new_id prefix c \<notin> set r)"
proof (rule Least_equality [symmetric])
  show "counter \<le> find_free prefix counter r \<and> new_id prefix (find_free prefix counter r) \<notin> set r"
    by (simp add: find_free_ge find_free_free)
next
  fix c
  assume "counter \<le> c \<and> new_id prefix c \<notin> set r"
  then show "find_free prefix counter r \<le> c"
    using find_free_below [of counter c prefix r] by (meson not_le_imp_less)
qed


subsection \<open>Grouping by type\<close>

lemma map_of_graph:
  "map_of (map (\<lambda>k. (k, f k)) ks) k = (if k \<in> set ks then Some (f k) else None)"
  by (induction ks) auto

lemma set_of_list_snoc:
  "set_of_list (ys @ [y]) = (if y \<in> set ys then set_of_list ys else set_of_list ys @ [y])"
  by (simp add: set_of_list_def)

lemma elements_by_type_snoc:
  "elements_by_type (xs @ [x]) = group_step (elements_by_type xs) x"
  by (simp add: elements_by_type_def)

lemma elements_by_type_eq:
  "elements_by_type xs =
     map (\<lambda>t. (t, filter (\<lambda>e. type e = t) xs)) (set_of_list (map type xs))"
proof (induction xs rule: rev_induct)
  case Nil
  show ?case by (simp add: elements_by_type_def set_of_list_def)
next
  case (snoc x xs)
  let ?ts = "set_of_list (map type xs)"
  let ?F = "\<lambda>ys t. filter (\<lambda>e. type e = t) ys"
  have ts: "distinct ?ts" "set ?ts = type ` set xs"
    by (simp_all add: distinct_set_of_list)
  show ?case
  proof (cases "type x \<in> set ?ts")
    case True
    then have "group_step (elements_by_type xs) x =
        AList.update (type x) (?F xs (type x) @ [x]) (map (\<lambda>t. (t, ?F xs t)) ?ts)"
      by (simp add: group_step_def snoc.IH map_of_graph)
    also have "\<dots> = map (\<lambda>t. (t, if t = type x then ?F xs (type x) @ [x] else ?F xs t)) ?ts"
      using ts(1) True by (rule update_present)
    also have "\<dots> = map (\<lambda>t. (t, ?F (xs @ [x]) t)) ?ts"
      by (rule map_cong) auto
    finally show ?thesis
      using True ts(2) by (simp add: elements_by_type_snoc set_of_list_snoc)
  next
    case False
    then have "\<forall>e \<in> set xs. type e \<noteq> type x"
      using ts(2) by (metis image_eqI)
    then have none: "?F xs (type x) = []"
      by (simp add: filter_empty_conv)
    from False have "group_step (elements_by_type xs) x =
        AList.update (type x) [x] (map (\<lambda>t. (t, ?F xs t)) ?ts)"
      by (simp add: group_step_def snoc.IH map_of_graph)
    also have "\<dots> = map (\<lambda>t. (t, ?F xs t)) ?ts @ [(type x, [x])]"
      using False by (intro update_fresh) (simp add: image_image)
    also have "map (\<lambda>t. (t, ?F xs t)) ?ts = map (\<lambda>t. (t, ?F (xs @ [x]) t)) ?ts"
      using False by (intro map_cong) auto
    finally show ?thesis
      using False ts(2) none by (simp add: elements_by_type_snoc set_of_list_snoc)
  qed
qed

lemma elements_by_type_groups:
  "(t, es) \<in> set (elements_by_type xs) \<Longrightarrow> es = filter (\<lambda>e. type e = t) xs \<and> t \<in> type ` set xs"
  by (auto simp: elements_by_type_eq)

lemma elements_by_type_cover:
  "(\<Union>item \<in> set (elements_by_type xs). set (snd item)) = set xs"
  by (auto simp: elements_by_type_eq)

subsection \<open>Invariants of the assignment loops\<close>

lemma reserved_inv_step:
  assumes "reserved_inv U (m, r)" and "v \<notin> set r"
  shows "reserved_inv U (AList.update k v m, set_add v r)"
proof -
  from assms have fresh: "v \<notin> snd ` set m" "v \<notin> U"
    by (auto simp: reserved_inv_def)
  have sub: "snd ` set (AList.update k v m) \<subseteq> insert v (snd ` set m)"
    by (rule update_values)
  from assms(1) fresh(1) have "distinct (map snd (AList.update k v m))"
    by (simp add: reserved_inv_def update_values_distinct)
  moreover from assms(1) sub have "snd ` set (AList.update k v m) \<subseteq> insert v (set r)"
    unfolding reserved_inv_def by auto
  moreover from assms(1) sub fresh(2) have "snd ` set (AList.update k v m) \<inter> U = {}"
    unfolding reserved_inv_def by auto
  moreover from assms(1) have "U \<subseteq> insert v (set r)"
    unfolding reserved_inv_def by auto
  ultimately show ?thesis
    by (simp add: reserved_inv_def)
qed

lemma reserved_inv_elements:
  "reserved_inv U st \<Longrightarrow> reserved_inv U (assign_type_elements prefix counter es st)"
proof (induction es arbitrary: counter st)
  case Nil
  then show ?case by simp
next
  case (Cons e es)
  obtain m r where st: "st = (m, r)" by (cases st)
  with Cons.prems have "reserved_inv U
      (AList.update (guid e) (new_id prefix (find_free prefix counter r)) m,
       set_add (new_id prefix (find_free prefix counter r)) r)"
    by (intro reserved_inv_step) (simp_all add: find_free_free)
  then show ?case
    by (simp add: st Let_def Cons.IH)
qed

lemma reserved_inv_type:
  "reserved_inv U st \<Longrightarrow> reserved_inv U (assign_type prefixes st item)"
  by (cases item) (simp add: assign_type_def Let_def reserved_inv_elements)

lemma reserved_inv_types:
  "reserved_inv U st \<Longrightarrow> reserved_inv U (foldl (assign_type prefixes) st items)"
  by (induction items arbitrary: st) (simp_all add: reserved_inv_type)

lemma generated_values:
  "distinct (map snd (generate_new_ids_for_problem_elements prefixes elements a)) \<and>
   snd ` set (generate_new_ids_for_problem_elements prefixes elements a)
     \<inter> set (existing_unique_ids a) = {}"
proof (cases "elements_needing_new_ids a = []")
  case True
  then show ?thesis by (simp add: generate_new_ids_for_problem_elements_def)
next
  case False
  let ?U = "set (existing_unique_ids a)"
  have "reserved_inv ?U ([], set_of_list (existing_unique_ids a))"
    by (simp add: reserved_inv_def)
  then have "reserved_inv ?U (foldl (assign_type prefixes) ([], set_of_list (existing_unique_ids a))
      (elements_by_type (problem_elements elements (elements_needing_new_ids a))))"
    by (rule reserved_inv_types)
  with False show ?thesis
    by (simp add: generate_new_ids_for_problem_elements_def Let_def reserved_inv_def)
qed

subsection \<open>Which elements receive an identifier, and of which form\<close>

lemma assign_type_pair:
  "assign_type prefixes st (t, es) =
     assign_type_elements (prefix_of prefixes t) (find_free (prefix_of prefixes t) 1 (snd st)) es st"
  by (simp add: assign_type_def Let_def)

lemma assigned_keys_elements:
  "fst ` set (fst (assign_type_elements prefix counter es st)) = fst ` set (fst st) \<union> guid ` set es"
proof (induction es arbitrary: counter st)
  case Nil
  show ?case by simp
next
  case (Cons e es)
  obtain m r where st: "st = (m, r)" by (cases st)
  show ?case
    by (auto simp: st Let_def Cons.IH dom_update)
qed

lemma assigned_keys_types:
  "fst ` set (fst (foldl (assign_type prefixes) st items)) =
     fst ` set (fst st) \<union> guid ` (\<Union>item \<in> set items. set (snd item))"
proof (induction items arbitrary: st)
  case Nil
  show ?case by simp
next
  case (Cons item items)
  obtain t es where item: "item = (t, es)" by (cases item)
  show ?case
    by (auto simp: Cons.IH item assign_type_pair assigned_keys_elements)
qed

lemma generated_keys:
  "fst ` set (generate_new_ids_for_problem_elements prefixes elements a) =
     {g \<in> guid ` set elements. g \<in> set (elements_needing_new_ids a)}"
proof (cases "elements_needing_new_ids a = []")
  case True
  then show ?thesis by (simp add: generate_new_ids_for_problem_elements_def)
next
  case False
  then show ?thesis
    by (auto simp: generate_new_ids_for_problem_elements_def Let_def assigned_keys_types
        elements_by_type_cover problem_elements_def)
qed

lemma distinct_keys_elements:
  "distinct (map fst (fst st)) \<Longrightarrow>
   distinct (map fst (fst (assign_type_elements prefix counter es st)))"
proof (induction es arbitrary: counter st)
  case Nil
  then show ?case by simp
next
  case (Cons e es)
  obtain m r where st: "st = (m, r)" by (cases st)
  with Cons.prems show ?case
    by (simp add: Let_def Cons.IH distinct_update)
qed

lemma distinct_keys_types:
  "distinct (map fst (fst st)) \<Longrightarrow>
   distinct (map fst (fst (foldl (assign_type prefixes) st items)))"
proof (induction items arbitrary: st)
  case Nil
  then show ?case by simp
next
  case (Cons item items)
  obtain t es where item: "item = (t, es)" by (cases item)
  from Cons.prems show ?case
    by (simp add: item assign_type_pair Cons.IH distinct_keys_elements)
qed

lemma generated_keys_distinct:
  "distinct (map fst (generate_new_ids_for_problem_elements prefixes elements a))"
  by (simp add: generate_new_ids_for_problem_elements_def Let_def distinct_keys_types)

text \<open>Every entry of the mapping was made for an element of some group, with the prefix of
  that group and a counter of at least 1.\<close>

lemma entries_elements:
  "(g, v) \<in> set (fst (assign_type_elements prefix counter es st)) \<Longrightarrow>
   (g, v) \<in> set (fst st) \<or> (\<exists>e \<in> set es. guid e = g \<and> (\<exists>k \<ge> counter. v = new_id prefix k))"
proof (induction es arbitrary: counter st)
  case Nil
  then show ?case by simp
next
  case (Cons e es)
  obtain m r where st: "st = (m, r)" by (cases st)
  let ?c = "find_free prefix counter r"
  let ?st' = "(AList.update (guid e) (new_id prefix ?c) m, set_add (new_id prefix ?c) r)"
  from Cons.prems have "(g, v) \<in> set (fst (assign_type_elements prefix (?c + 1) es ?st'))"
    by (simp add: st Let_def)
  from Cons.IH [OF this] consider
      "(g, v) \<in> set (AList.update (guid e) (new_id prefix ?c) m)"
    | "\<exists>e \<in> set es. guid e = g \<and> (\<exists>k \<ge> ?c + 1. v = new_id prefix k)"
    by auto
  then show ?case
  proof cases
    case 1
    then have "(g, v) = (guid e, new_id prefix ?c) \<or> (g, v) \<in> set m"
      using update_entries [of "guid e" "new_id prefix ?c" m] by auto
    then show ?thesis
      using find_free_ge [of counter prefix r] by (auto simp: st)
  next
    case 2
    then obtain e' k where "e' \<in> set es" "guid e' = g" "?c + 1 \<le> k" "v = new_id prefix k"
      by auto
    moreover have "counter \<le> ?c" by (rule find_free_ge)
    ultimately have "e' \<in> set (e # es) \<and> guid e' = g \<and> counter \<le> k \<and> v = new_id prefix k"
      by simp
    then show ?thesis by blast
  qed
qed

lemma entries_types:
  "(g, v) \<in> set (fst (foldl (assign_type prefixes) st items)) \<Longrightarrow>
   (g, v) \<in> set (fst st) \<or>
   (\<exists>(t, es) \<in> set items. \<exists>e \<in> set es. guid e = g \<and> (\<exists>k \<ge> 1. v = new_id (prefix_of prefixes t) k))"
proof (induction items arbitrary: st)
  case Nil
  then show ?case by simp
next
  case (Cons item items)
  obtain t es where item: "item = (t, es)" by (cases item)
  let ?p = "prefix_of prefixes t"
  let ?c = "find_free ?p 1 (snd st)"
  from Cons.prems have "(g, v) \<in> set (fst (foldl (assign_type prefixes)
      (assign_type_elements ?p ?c es st) items))"
    by (simp add: item assign_type_pair)
  from Cons.IH [OF this] consider
      "(g, v) \<in> set (fst (assign_type_elements ?p ?c es st))"
    | "\<exists>(t, es) \<in> set items. \<exists>e \<in> set es. guid e = g \<and> (\<exists>k \<ge> 1. v = new_id (prefix_of prefixes t) k)"
    by auto
  then show ?case
  proof cases
    case 1
    from entries_elements [OF this] show ?thesis
    proof
      assume "(g, v) \<in> set (fst st)"
      then show ?thesis by simp
    next
      assume "\<exists>e \<in> set es. guid e = g \<and> (\<exists>k \<ge> ?c. v = new_id ?p k)"
      then obtain e k where "e \<in> set es" "guid e = g" "?c \<le> k" "v = new_id ?p k"
        by auto
      moreover have "1 \<le> ?c" by (rule find_free_ge)
      ultimately have "e \<in> set es \<and> guid e = g \<and> 1 \<le> k \<and> v = new_id ?p k"
        by simp
      then show ?thesis unfolding item by auto
    qed
  next
    case 2
    then show ?thesis by auto
  qed
qed

lemma generated_entries:
  assumes "(g, v) \<in> set (generate_new_ids_for_problem_elements prefixes elements a)"
  shows "\<exists>e \<in> set elements. guid e = g \<and> (\<exists>k \<ge> 1. v = new_id (prefix_of prefixes (type e)) k)"
proof -
  let ?problem = "problem_elements elements (elements_needing_new_ids a)"
  from assms have ne: "elements_needing_new_ids a \<noteq> []"
    by (auto simp: generate_new_ids_for_problem_elements_def)
  with assms have "(g, v) \<in> set (fst (foldl (assign_type prefixes)
      ([], set_of_list (existing_unique_ids a)) (elements_by_type ?problem)))"
    by (simp add: generate_new_ids_for_problem_elements_def Let_def)
  from entries_types [OF this] obtain t es e k where
    "(t, es) \<in> set (elements_by_type ?problem)" "e \<in> set es" "guid e = g" "1 \<le> k"
    "v = new_id (prefix_of prefixes t) k"
    by auto
  moreover from this(1) have "es = filter (\<lambda>e. type e = t) ?problem"
    by (simp add: elements_by_type_groups)
  ultimately have "e \<in> set elements \<and> guid e = g \<and> 1 \<le> k \<and> v = new_id (prefix_of prefixes (type e)) k"
    by (auto simp: problem_elements_def)
  then show ?thesis by blast
qed

subsection \<open>The analysis\<close>

lemma strip_Nil [simp]: "strip [] = []"
  by (simp add: strip_def)

lemma holders_snoc:
  "holders (ids @ [(g, i)]) s = holders ids s @ (if strip i = s then [g] else [])"
  by (simp add: holders_def)

lemma count_step_blank:
  "strip i = [] \<Longrightarrow> count_step (ic, em) (g, i) = (ic, em @ [g])"
  by (simp add: count_step_def)

lemma count_step_id:
  "strip i \<noteq> [] \<Longrightarrow> count_step (ic, em) (g, i) =
     (AList.update (strip i) ((case map_of ic (strip i) of None \<Rightarrow> [] | Some gs \<Rightarrow> gs) @ [g]) ic, em)"
  by (auto simp: count_step_def Let_def split: option.splits)

lemma count_loop:
  "map_of (fst (foldl count_step ([], []) ids)) =
     (\<lambda>s. if s \<noteq> [] \<and> holders ids s \<noteq> [] then Some (holders ids s) else None) \<and>
   distinct (map fst (fst (foldl count_step ([], []) ids))) \<and>
   snd (foldl count_step ([], []) ids) = holders ids []"
proof (induction ids rule: rev_induct)
  case Nil
  show ?case by (simp add: holders_def)
next
  case (snoc x ids)
  obtain g i where x: "x = (g, i)" by (cases x)
  obtain ic em where fold: "foldl count_step ([], []) ids = (ic, em)"
    by (cases "foldl count_step ([], []) ids")
  from snoc.IH fold have ic:
    "map_of ic = (\<lambda>s. if s \<noteq> [] \<and> holders ids s \<noteq> [] then Some (holders ids s) else None)"
    and dist: "distinct (map fst ic)" and em: "em = holders ids []"
    by simp_all
  show ?case
  proof (cases "strip i = []")
    case True
    then have "foldl count_step ([], []) (ids @ [x]) = (ic, em @ [g])"
      by (simp add: fold x count_step_blank)
    moreover from True
    have "holders (ids @ [x]) s = (if s = [] then holders ids [] @ [g] else holders ids s)" for s
      by (simp add: x holders_snoc)
    ultimately show ?thesis
      by (simp add: ic dist em fun_eq_iff)
  next
    case False
    let ?s = "strip i"
    have old: "(case map_of ic ?s of None \<Rightarrow> [] | Some gs \<Rightarrow> gs) = holders ids ?s"
      using False by (simp add: ic)
    have step: "foldl count_step ([], []) (ids @ [x]) = (AList.update ?s (holders ids ?s @ [g]) ic, em)"
      using False by (simp add: fold x count_step_id old)
    have "map_of (AList.update ?s (holders ids ?s @ [g]) ic) =
        (\<lambda>s. if s \<noteq> [] \<and> holders (ids @ [x]) s \<noteq> [] then Some (holders (ids @ [x]) s) else None)"
      using False by (auto simp: update_conv' ic x holders_snoc fun_eq_iff)
    moreover have "distinct (map fst (AList.update ?s (holders ids ?s @ [g]) ic))"
      using dist by (rule distinct_update)
    moreover have "holders (ids @ [x]) [] = holders ids []"
      using False by (simp add: x holders_snoc)
    ultimately show ?thesis
      using em unfolding step by simp
  qed
qed

lemma id_counts_entries:
  "(s, gs) \<in> set (fst (foldl count_step ([], []) ids)) \<longleftrightarrow>
     s \<noteq> [] \<and> gs \<noteq> [] \<and> gs = holders ids s"
proof -
  let ?ic = "fst (foldl count_step ([], []) ids)"
  have "distinct (map fst ?ic)"
    using count_loop [of ids] by blast
  then have "(s, gs) \<in> set ?ic \<longleftrightarrow> map_of ?ic s = Some gs"
    by simp
  also have "\<dots> \<longleftrightarrow> s \<noteq> [] \<and> gs \<noteq> [] \<and> gs = holders ids s"
    using count_loop [of ids] by auto
  finally show ?thesis .
qed

lemma duplicate_keys_fold:
  "fst ` set (foldl (\<lambda>d g. AList.update g s d) dup gs) = fst ` set dup \<union> set gs"
  by (induction gs arbitrary: dup) (auto simp: dom_update)

lemma classify_loop:
  "fst ` set (fst (foldl classify_step (dup, un) ic)) =
     fst ` set dup \<union> {g. \<exists>s gs. (s, gs) \<in> set ic \<and> 1 < length gs \<and> g \<in> set gs} \<and>
   set (snd (foldl classify_step (dup, un) ic)) =
     set un \<union> {s. \<exists>gs. (s, gs) \<in> set ic \<and> \<not> 1 < length gs} \<and>
   (distinct un \<longrightarrow> distinct (snd (foldl classify_step (dup, un) ic)))"
proof (induction ic arbitrary: dup un)
  case Nil
  show ?case by simp
next
  case (Cons item ic)
  obtain s gs where item: "item = (s, gs)" by (cases item)
  show ?case
  proof (cases "1 < length gs")
    case True
    then have "classify_step (dup, un) item = (foldl (\<lambda>d g. AList.update g s d) dup gs, un)"
      by (simp add: classify_step_def item)
    then show ?thesis
      using True by (simp add: Cons.IH duplicate_keys_fold item) blast
  next
    case False
    then have "classify_step (dup, un) item = (dup, set_add s un)"
      by (simp add: classify_step_def item)
    then show ?thesis
      using False by (simp add: Cons.IH item distinct_set_add) blast
  qed
qed

lemma analysis_fields:
  "existing_unique_ids (analyze_existing_ids ids) =
     snd (foldl classify_step ([], []) (fst (foldl count_step ([], []) ids)))"
  "elements_needing_new_ids (analyze_existing_ids ids) =
     set_of_list (snd (foldl count_step ([], []) ids) @
       map fst (fst (foldl classify_step ([], []) (fst (foldl count_step ([], []) ids)))))"
  by (simp_all add: analyze_existing_ids_def Let_def case_prod_beta)

lemma in_holders: "g \<in> set (holders ids s) \<longleftrightarrow> (\<exists>i. (g, i) \<in> set ids \<and> strip i = s)"
  by (force simp: holders_def)

lemma analysis_unique:
  "set (existing_unique_ids (analyze_existing_ids ids)) =
     {s. s \<noteq> [] \<and> length (holders ids s) = 1}"
proof -
  have "set (existing_unique_ids (analyze_existing_ids ids)) =
      {s. \<exists>gs. (s, gs) \<in> set (fst (foldl count_step ([], []) ids)) \<and> \<not> 1 < length gs}"
    using classify_loop [of "[]" "[]" "fst (foldl count_step ([], []) ids)"]
    by (simp add: analysis_fields)
  also have "\<dots> = {s. s \<noteq> [] \<and> holders ids s \<noteq> [] \<and> \<not> 1 < length (holders ids s)}"
    by (simp add: id_counts_entries)
  also have "\<dots> = {s. s \<noteq> [] \<and> length (holders ids s) = 1}"
  proof -
    have "xs \<noteq> [] \<and> \<not> 1 < length xs \<longleftrightarrow> length xs = 1" for xs :: "'a list"
      by (cases xs) auto
    then show ?thesis by simp
  qed
  finally show ?thesis .
qed

lemma analysis_unique_distinct: "distinct (existing_unique_ids (analyze_existing_ids ids))"
  using classify_loop [of "[]" "[]" "fst (foldl count_step ([], []) ids)"]
  by (simp add: analysis_fields)

lemma analysis_needing:
  "set (elements_needing_new_ids (analyze_existing_ids ids)) =
     {g. \<exists>i. (g, i) \<in> set ids \<and> (strip i = [] \<or> 1 < length (holders ids (strip i)))}"
proof -
  let ?ic = "fst (foldl count_step ([], []) ids)"
  have "set (elements_needing_new_ids (analyze_existing_ids ids)) =
      set (holders ids []) \<union> {g. \<exists>s gs. (s, gs) \<in> set ?ic \<and> 1 < length gs \<and> g \<in> set gs}"
    using classify_loop [of "[]" "[]" ?ic] count_loop [of ids]
    by (simp add: analysis_fields)
  also have "{g. \<exists>s gs. (s, gs) \<in> set ?ic \<and> 1 < length gs \<and> g \<in> set gs} =
      {g. \<exists>s. s \<noteq> [] \<and> 1 < length (holders ids s) \<and> g \<in> set (holders ids s)}"
    by (auto simp: id_counts_entries)
  also have "set (holders ids []) \<union> \<dots> =
      {g. \<exists>i. (g, i) \<in> set ids \<and> (strip i = [] \<or> 1 < length (holders ids (strip i)))}"
    by (fastforce simp: in_holders)
  finally show ?thesis .
qed

section \<open>What the specification says of the identifier assigner\<close>

text \<open>
  C1. After generation the final identifiers, that is the unique existing identifiers that
  are kept together with the newly assigned ones, contain no duplicates: the assigned values
  are mutually distinct, none of them is a kept unique identifier, and the counter the
  search returns always gives a string that is not in the reserved set at that moment.
  The first conjunct is the whole run on any dictionary of existing identifiers; the second
  and third hold for any analysis handed to the generator.
\<close>

theorem final_identifiers_distinct:
  "distinct (existing_unique_ids (analyze_existing_ids ids) @
     map snd (generate_new_ids_for_problem_elements prefixes elements (analyze_existing_ids ids))) \<and>
   distinct (map snd (generate_new_ids_for_problem_elements prefixes elements a)) \<and>
   snd ` set (generate_new_ids_for_problem_elements prefixes elements a)
     \<inter> set (existing_unique_ids a) = {} \<and>
   new_id prefix (find_free prefix counter r) \<notin> set r"
proof -
  let ?a = "analyze_existing_ids ids"
  have "set (existing_unique_ids ?a) \<inter>
      set (map snd (generate_new_ids_for_problem_elements prefixes elements ?a)) = {}"
    using generated_values [of prefixes elements ?a] by auto
  then have "distinct (existing_unique_ids ?a @
      map snd (generate_new_ids_for_problem_elements prefixes elements ?a))"
    using generated_values [of prefixes elements ?a] analysis_unique_distinct [of ids]
    by simp
  then show ?thesis
    using generated_values [of prefixes elements a] find_free_free [of prefix counter r]
    by simp
qed

subsection \<open>The generation step as the specification words it\<close>

lemma assign_type_elements_spec:
  "assign_type_elements prefix counter es st = spec_assign_type prefix counter es st"
proof (induction es arbitrary: counter st)
  case Nil
  show ?case by simp
next
  case (Cons e es)
  obtain m r where st: "st = (m, r)" by (cases st)
  show ?case
    by (simp add: st Let_def spec_next_counter_def find_free_Least [symmetric] Cons.IH)
qed

lemma assign_type_from_1:
  "assign_type prefixes st (t, es) = assign_type_elements (prefix_of prefixes t) 1 es st"
proof (cases es)
  case Nil
  then show ?thesis by (simp add: assign_type_pair)
next
  case (Cons e es')
  obtain m r where st: "st = (m, r)" by (cases st)
  show ?thesis
    by (simp add: Cons st assign_type_pair find_free_idem)
qed

lemma remdups_snoc: "remdups (ys @ [x]) = filter (\<lambda>y. y \<noteq> x) (remdups ys) @ [x]"
  by (induction ys) auto

lemma first_occurrences_eq: "first_occurrences xs = set_of_list xs"
proof (induction xs)
  case Nil
  show ?case by (simp add: set_of_list_def)
next
  case (Cons x xs)
  have "set_of_list (x # xs) = x # filter (\<lambda>y. y \<noteq> x) (set_of_list xs)"
    by (simp add: set_of_list_def remdups_snoc rev_filter)
  with Cons.IH show ?case by simp
qed

lemma generate_eq_spec:
  "generate_new_ids_for_problem_elements prefixes elements a = spec_generate prefixes elements a"
proof (cases "elements_needing_new_ids a = []")
  case True
  then show ?thesis
    by (simp add: generate_new_ids_for_problem_elements_def spec_generate_def)
next
  case False
  let ?needy = "filter (\<lambda>e. guid e \<in> set (elements_needing_new_ids a)) elements"
  have "foldl (assign_type prefixes) st (map (\<lambda>t. (t, filter (\<lambda>e. type e = t) ?needy)) ts) =
      foldl (\<lambda>st t. spec_assign_type (prefix_of prefixes t) 1 (filter (\<lambda>e. type e = t) ?needy) st) st ts"
    for st :: "('a, pystr) dict \<times> pystr pyset" and ts
    by (induction ts arbitrary: st) (simp_all add: assign_type_from_1 assign_type_elements_spec)
  with False show ?thesis
    by (simp add: generate_new_ids_for_problem_elements_def spec_generate_def Let_def
        problem_elements_def elements_by_type_eq first_occurrences_eq)
qed

text \<open>
  C2. For every type with prefix P the generator takes that type's needy elements in input
  order with a counter that starts at 1; each element gets \<open>P-{C:03d}\<close> for the smallest C at
  or above the current counter whose candidate is not reserved, the candidate is added to
  the reserved set, and the next element of the type goes on from C + 1. The generator of
  the source computes exactly the mapping this description defines, and its search is the
  least-counter search.
\<close>

theorem generation_follows_counter_rule:
  "generate_new_ids_for_problem_elements prefixes elements a = spec_generate prefixes elements a \<and>
   find_free P counter reserved = spec_next_counter P counter reserved \<and>
   assign_type prefixes st (t, es) = spec_assign_type (prefix_of prefixes t) 1 es st"
  by (simp add: generate_eq_spec spec_next_counter_def find_free_Least [symmetric]
      assign_type_from_1 assign_type_elements_spec)

subsection \<open>Evaluation on concrete inputs\<close>

lemma format_03d_1digit: "n < 10 \<Longrightarrow> format_03d n = [48, 48, 48 + n]"
  by (simp add: format_03d_def str_int.simps [of n] numeral_2_eq_2)

lemma literals:
  "py_str ''Wall'' = [87, 97, 108, 108]" "py_str ''Beam'' = [66, 101, 97, 109]"
  "py_str ''W'' = [87]" "py_str ''B'' = [66]" "py_str ''GEN'' = [71, 69, 78]"
  "py_str ''W-001'' = [87, 45, 48, 48, 49]" "py_str ''W-002'' = [87, 45, 48, 48, 50]"
  "py_str ''W-005'' = [87, 45, 48, 48, 53]" "py_str ''B-001'' = [66, 45, 48, 48, 49]"
  by (simp_all add: py_str_def)

lemma prefix_examples:
  "prefix_of element_prefixes (py_str ''Wall'') = py_str ''W''"
  "prefix_of element_prefixes (py_str ''Beam'') = py_str ''B''"
  by (simp_all add: prefix_of_def element_prefixes_def py_str_def)

lemma example_existing_ids:
  "existing_ids_of example_triples =
     [(E1, py_str ''W-001''), (E2, py_str ''W-001''), (E3, py_str ''W-005''), (E4, [])]"
  by (simp add: example_triples_def existing_ids_of_def elements_of_def get_existing_ids_bulk_def)

lemma example_strip:
  "strip (py_str ''W-001'') = py_str ''W-001''" "strip (py_str ''W-005'') = py_str ''W-005''"
  by (simp_all add: literals strip_def isspace_def)

lemma example_analysis:
  "analyze_existing_ids (existing_ids_of example_triples) =
     \<lparr> total_elements = 4, unique_ids = 1, empty_ids = 1, duplicate_count = 2,
       elements_needing_new_ids = [E4, E1, E2],
       existing_unique_ids = [py_str ''W-005''],
       duplicate_elements = [(E1, py_str ''W-001''), (E2, py_str ''W-001'')] \<rparr>"
  using example_strip
  by (simp add: example_existing_ids analyze_existing_ids_def count_step_def classify_step_def
      literals set_add_def set_of_list_def set_len_def)

lemma example_groups:
  "elements_by_type (problem_elements (elements_of example_triples) [E4, E1, E2]) =
     [(py_str ''Wall'', [\<lparr>guid = E1, type = py_str ''Wall''\<rparr>, \<lparr>guid = E2, type = py_str ''Wall''\<rparr>]),
      (py_str ''Beam'', [\<lparr>guid = E4, type = py_str ''Beam''\<rparr>])]"
  by (simp add: example_triples_def elements_of_def problem_elements_def elements_by_type_def
      group_step_def literals)

lemma example_mapping:
  "new_id_mapping_of element_prefixes example_triples =
     [(E1, py_str ''W-001''), (E2, py_str ''W-002''), (E4, py_str ''B-001'')]"
proof -
  have "generate_new_ids_for_problem_elements element_prefixes (elements_of example_triples)
      (analyze_existing_ids (existing_ids_of example_triples)) =
      fst (foldl (assign_type element_prefixes) ([], [py_str ''W-005''])
        [(py_str ''Wall'', [\<lparr>guid = E1, type = py_str ''Wall''\<rparr>, \<lparr>guid = E2, type = py_str ''Wall''\<rparr>]),
         (py_str ''Beam'', [\<lparr>guid = E4, type = py_str ''Beam''\<rparr>])])"
    by (simp add: generate_new_ids_for_problem_elements_def example_analysis example_groups
        set_of_list_def)
  also have "\<dots> = [(E1, py_str ''W-001''), (E2, py_str ''W-002''), (E4, py_str ''B-001'')]"
    by code_simp
  finally show ?thesis by (simp add: new_id_mapping_of_def)
qed

text \<open>
  C3. On the input \<open>[(E1, Wall, "W-001"), (E2, Wall, "W-001"), (E3, Wall, "W-005"), (E4, Beam, "")]\<close>
  the element E3 is not in the assignment mapping; \<open>W-001\<close> is duplicated and therefore not
  reserved (only \<open>W-005\<close> is), so E1 is assigned \<open>W-001\<close> and E2 is assigned \<open>W-002\<close>; and E4 is
  assigned \<open>B-001\<close>.
\<close>

theorem worked_example:
  "map_of (new_id_mapping_of element_prefixes example_triples) E3 = None \<and>
   existing_unique_ids (analyze_existing_ids (existing_ids_of example_triples)) = [py_str ''W-005''] \<and>
   map_of (new_id_mapping_of element_prefixes example_triples) E1 = Some (py_str ''W-001'') \<and>
   map_of (new_id_mapping_of element_prefixes example_triples) E2 = Some (py_str ''W-002'') \<and>
   map_of (new_id_mapping_of element_prefixes example_triples) E4 = Some (py_str ''B-001'')"
  by (simp add: example_mapping example_analysis)

subsection \<open>Trimming\<close>

lemma dropWhile_all: "(\<forall>c \<in> set (dropWhile P s). P c) \<longleftrightarrow> dropWhile P s = []"
proof
  assume all: "\<forall>c \<in> set (dropWhile P s). P c"
  show "dropWhile P s = []"
  proof (rule ccontr)
    assume ne: "dropWhile P s \<noteq> []"
    then have "\<not> P (hd (dropWhile P s))" by (rule hd_dropWhile)
    moreover from ne have "hd (dropWhile P s) \<in> set (dropWhile P s)" by simp
    ultimately show False using all by blast
  qed
next
  assume "dropWhile P s = []"
  then show "\<forall>c \<in> set (dropWhile P s). P c" by (auto dest: set_dropWhileD)
qed

lemma strip_empty_iff: "strip s = [] \<longleftrightarrow> (\<forall>c \<in> set s. isspace c)"
proof -
  have "strip s = [] \<longleftrightarrow> (\<forall>c \<in> set (dropWhile isspace s). isspace c)"
    by (simp add: strip_def)
  also have "\<dots> \<longleftrightarrow> dropWhile isspace s = []"
    by (rule dropWhile_all)
  finally show ?thesis by simp
qed

lemma strip_middle:
  "dropWhile isspace s = strip s @ rev (takeWhile isspace (rev (dropWhile isspace s)))"
proof -
  let ?t = "dropWhile isspace s"
  have "?t = rev (takeWhile isspace (rev ?t) @ dropWhile isspace (rev ?t))"
    by (simp only: takeWhile_dropWhile_id rev_rev_ident)
  also have "\<dots> = rev (dropWhile isspace (rev ?t)) @ rev (takeWhile isspace (rev ?t))"
    by (rule rev_append)
  finally show ?thesis by (simp add: strip_def)
qed

lemma strip_decompose:
  "s = takeWhile isspace s @ strip s @ rev (takeWhile isspace (rev (dropWhile isspace s)))"
proof -
  have "s = takeWhile isspace s @ dropWhile isspace s" by simp
  then show ?thesis using strip_middle [of s] by simp
qed

lemma strip_ends:
  assumes "strip s \<noteq> []"
  shows "\<not> isspace (hd (strip s))" and "\<not> isspace (last (strip s))"
proof -
  let ?t = "dropWhile isspace s"
  from assms have u: "dropWhile isspace (rev ?t) \<noteq> []" by (simp add: strip_def)
  then have "\<not> isspace (hd (dropWhile isspace (rev ?t)))"
    by (rule hd_dropWhile)
  with u show "\<not> isspace (last (strip s))"
    by (simp add: strip_def last_rev)
  have t: "?t \<noteq> []"
  proof
    assume e: "?t = []"
    have "dropWhile isspace (rev ?t) = []" unfolding e by simp
    with u show False by contradiction
  qed
  have "hd ?t = hd (strip s @ rev (takeWhile isspace (rev ?t)))"
    using strip_middle [of s] by simp
  with assms have "hd (strip s) = hd ?t" by simp
  moreover from t have "\<not> isspace (hd ?t)" by (rule hd_dropWhile)
  ultimately show "\<not> isspace (hd (strip s))" by simp
qed

lemma analysis_duplicates:
  "fst ` set (duplicate_elements (analyze_existing_ids ids)) =
     {g. \<exists>i. (g, i) \<in> set ids \<and> strip i \<noteq> [] \<and> 1 < length (holders ids (strip i))}"
proof -
  let ?ic = "fst (foldl count_step ([], []) ids)"
  have "duplicate_elements (analyze_existing_ids ids) = fst (foldl classify_step ([], []) ?ic)"
    by (simp add: analyze_existing_ids_def Let_def case_prod_beta)
  then have "fst ` set (duplicate_elements (analyze_existing_ids ids)) =
      {g. \<exists>s gs. (s, gs) \<in> set ?ic \<and> 1 < length gs \<and> g \<in> set gs}"
    using classify_loop [of "[]" "[]" ?ic] by simp
  also have "\<dots> = {g. \<exists>s. s \<noteq> [] \<and> 1 < length (holders ids s) \<and> g \<in> set (holders ids s)}"
    by (auto simp: id_counts_entries)
  also have "\<dots> = {g. \<exists>i. (g, i) \<in> set ids \<and> strip i \<noteq> [] \<and> 1 < length (holders ids (strip i))}"
    by (fastforce simp: in_holders)
  finally show ?thesis .
qed

text \<open>
  C4. Classification trims every existing identifier of surrounding white space (what is
  cut off at both ends is white space, and what remains neither starts nor ends with it) and
  treats an identifier that is empty after trimming, that is one made of white space only,
  as absent. With the elements grouped by their trimmed identifier, an identifier held by
  exactly one element is unique, the holders of an identifier held by two or more elements
  are the duplicates, and the elements that need a new identifier are the duplicates
  together with the elements whose identifier is absent.
\<close>

theorem classification:
  "(strip i = [] \<longleftrightarrow> list_all isspace i) \<and>
   (\<exists>a b. i = a @ strip i @ b \<and> list_all isspace a \<and> list_all isspace b) \<and>
   (strip i \<noteq> [] \<longrightarrow> \<not> isspace (hd (strip i)) \<and> \<not> isspace (last (strip i))) \<and>
   set (existing_unique_ids (analyze_existing_ids ids)) =
     {s. s \<noteq> [] \<and> length (holders ids s) = 1} \<and>
   fst ` set (duplicate_elements (analyze_existing_ids ids)) =
     {g. \<exists>i. (g, i) \<in> set ids \<and> strip i \<noteq> [] \<and> 1 < length (holders ids (strip i))} \<and>
   set (elements_needing_new_ids (analyze_existing_ids ids)) =
     {g. \<exists>i. (g, i) \<in> set ids \<and> (strip i = [] \<or> 1 < length (holders ids (strip i)))}"
proof -
  have "list_all isspace (takeWhile isspace i)"
    by (auto simp: list_all_iff dest: set_takeWhileD)
  moreover have "list_all isspace (rev (takeWhile isspace (rev (dropWhile isspace i))))"
    by (auto simp: list_all_iff dest: set_takeWhileD)
  ultimately have "\<exists>a b. i = a @ strip i @ b \<and> list_all isspace a \<and> list_all isspace b"
    using strip_decompose [of i] by blast
  then show ?thesis
    by (simp add: strip_empty_iff list_all_iff strip_ends analysis_unique analysis_duplicates
        analysis_needing)
qed

lemma spaced_analysis:
  "elements_needing_new_ids (analyze_existing_ids spaced_ids) = [E4, E1, E2]"
  "existing_unique_ids (analyze_existing_ids spaced_ids) = [py_str ''W-005'']"
  by (simp_all add: spaced_ids_def analyze_existing_ids_def count_step_def classify_step_def
      py_str_def strip_def isspace_def set_add_def set_of_list_def set_len_def)

theorem classification_witness:
  "strip (py_str '' W-001'') \<noteq> [] \<and>
   elements_needing_new_ids (analyze_existing_ids spaced_ids) = [E4, E1, E2] \<and>
   existing_unique_ids (analyze_existing_ids spaced_ids) = [py_str ''W-005''] \<and>
   \<not> isspace (hd (strip (py_str '' W-001''))) \<and> \<not> isspace (last (strip (py_str '' W-001''))) \<and>
   set (existing_unique_ids (analyze_existing_ids spaced_ids)) =
     {s. s \<noteq> [] \<and> length (holders spaced_ids s) = 1}"
proof -
  have "strip (py_str '' W-001'') \<noteq> []"
    by (simp add: strip_def isspace_def py_str_def)
  with classification [of "py_str '' W-001''" spaced_ids] show ?thesis
    by (simp only: spaced_analysis) blast
qed

subsection \<open>The run on a snapshot of the host\<close>

lemma fold_update_fresh:
  "distinct (map fst kvs) \<Longrightarrow> fst ` set al \<inter> fst ` set kvs = {} \<Longrightarrow>
   foldl (\<lambda>d (k, v). AList.update k v d) al kvs = al @ kvs"
proof (induction kvs arbitrary: al)
  case Nil
  show ?case by simp
next
  case (Cons kv kvs)
  obtain k v where kv: "kv = (k, v)" by (cases kv)
  from Cons.prems have fresh: "k \<notin> fst ` set al" by (auto simp: kv)
  from Cons.prems have "fst ` set (al @ [(k, v)]) \<inter> fst ` set kvs = {}"
    by (auto simp: kv)
  with Cons.prems have "foldl (\<lambda>d (k, v). AList.update k v d) (al @ [(k, v)]) kvs = (al @ [(k, v)]) @ kvs"
    by (intro Cons.IH) simp_all
  with fresh show ?case by (simp add: kv update_fresh)
qed

lemma existing_ids_of_distinct:
  assumes "distinct (map fst triples)"
  shows "existing_ids_of triples = triple_ids triples"
proof -
  have "zip (elements_of triples) (map (\<lambda>(g, t, i). i) triples) =
      map (\<lambda>(g, t, i). (\<lparr>guid = g, type = t\<rparr>, i)) triples"
    by (induction triples) (auto simp: elements_of_def)
  then have "existing_ids_of triples =
      foldl (\<lambda>d (k, v). AList.update k v d) [] (triple_ids triples)"
    by (simp add: existing_ids_of_def get_existing_ids_bulk_def triple_ids_def foldl_map
        case_prod_beta)
  moreover have "map fst (triple_ids triples) = map fst triples"
    by (simp add: triple_ids_def case_prod_beta)
  ultimately show ?thesis
    using assms by (simp add: fold_update_fresh)
qed

lemma guids_of_elements: "guid ` set (elements_of triples) = fst ` set triples"
  by (force simp: elements_of_def)

lemma triple_ids_entry:
  "distinct (map fst triples) \<Longrightarrow> (g, t, i) \<in> set triples \<Longrightarrow>
   (g, i') \<in> set (triple_ids triples) \<longleftrightarrow> i' = i"
proof -
  assume d: "distinct (map fst triples)" and m: "(g, t, i) \<in> set triples"
  have "map fst (triple_ids triples) = map fst triples"
    by (simp add: triple_ids_def case_prod_beta)
  with d have "distinct (map fst (triple_ids triples))" by simp
  moreover from m have "(g, i) \<in> set (triple_ids triples)"
    by (force simp: triple_ids_def)
  ultimately show ?thesis
    by (metis map_of_eq_Some_iff option.inject)
qed

lemma needing_of_triples:
  assumes "distinct (map fst triples)" and "(g, t, i) \<in> set triples"
  shows "g \<in> set (elements_needing_new_ids (analyze_existing_ids (existing_ids_of triples))) \<longleftrightarrow>
     strip i = [] \<or> 1 < length (holders (triple_ids triples) (strip i))"
  using assms by (simp add: existing_ids_of_distinct analysis_needing triple_ids_entry [OF assms])

lemma mapping_keys_of_triples:
  assumes "distinct (map fst triples)" and "(g, t, i) \<in> set triples"
  shows "g \<in> fst ` set (new_id_mapping_of prefixes triples) \<longleftrightarrow>
     strip i = [] \<or> 1 < length (holders (triple_ids triples) (strip i))"
proof -
  from assms(2) have "g \<in> fst ` set triples" by force
  then show ?thesis
    by (simp add: new_id_mapping_of_def generated_keys guids_of_elements
        needing_of_triples [OF assms])
qed

lemma same_value_same_key:
  "distinct (map snd m) \<Longrightarrow> (a, v) \<in> set m \<Longrightarrow> (b, v) \<in> set m \<Longrightarrow> a = b"
proof -
  assume "distinct (map snd m)" "(a, v) \<in> set m" "(b, v) \<in> set m"
  then have "inj_on snd (set m)" by (simp add: distinct_map)
  moreover have "snd (a, v) = snd (b, v)" by simp
  ultimately have "(a, v) = (b, v)"
    using \<open>(a, v) \<in> set m\<close> \<open>(b, v) \<in> set m\<close> by (rule inj_onD)
  then show ?thesis by simp
qed

text \<open>
  C5. An element whose trimmed existing identifier is unique in the input (it is not empty
  and exactly one element holds it) is not in the assignment mapping: its identifier is left
  as it is. The elements of a snapshot are distinct.
\<close>

theorem unique_identifier_untouched:
  assumes "distinct (map fst triples)" and "(g, t, i) \<in> set triples"
    and "strip i \<noteq> []" and "length (holders (triple_ids triples) (strip i)) = 1"
  shows "map_of (new_id_mapping_of prefixes triples) g = None"
proof -
  from assms(3,4) have "\<not> (strip i = [] \<or> 1 < length (holders (triple_ids triples) (strip i)))"
    by simp
  then have "g \<notin> fst ` set (new_id_mapping_of prefixes triples)"
    by (simp add: mapping_keys_of_triples [OF assms(1,2)])
  then show ?thesis by (simp add: map_of_eq_None_iff)
qed

lemma example_holders:
  "distinct (map fst example_triples)"
  "holders (triple_ids example_triples) (py_str ''W-005'') = [E3]"
  "holders (triple_ids example_triples) (py_str ''W-001'') = [E1, E2]"
  "strip (py_str ''W-005'') = py_str ''W-005''"
  "strip (py_str ''W-001'') = py_str ''W-001''"
  by (simp_all add: example_triples_def triple_ids_def holders_def py_str_def strip_def isspace_def)

theorem unique_identifier_untouched_witness:
  "distinct (map fst example_triples) \<and>
   (E3, py_str ''Wall'', py_str ''W-005'') \<in> set example_triples \<and>
   strip (py_str ''W-005'') \<noteq> [] \<and>
   length (holders (triple_ids example_triples) (strip (py_str ''W-005''))) = 1 \<and>
   map_of (new_id_mapping_of element_prefixes example_triples) E3 = None"
proof -
  have h: "distinct (map fst example_triples)"
    "(E3, py_str ''Wall'', py_str ''W-005'') \<in> set example_triples"
    "strip (py_str ''W-005'') \<noteq> []"
    "length (holders (triple_ids example_triples) (strip (py_str ''W-005''))) = 1"
    by (simp_all add: example_holders) (simp_all add: example_triples_def py_str_def)
  from unique_identifier_untouched [OF h] h show ?thesis by simp
qed

text \<open>
  C6. An element that shares its trimmed identifier with another element, or whose
  identifier is absent, has an entry in the assignment mapping, and the value of that entry
  is neither a kept unique identifier nor the value assigned to any other element.
\<close>

theorem needy_element_gets_fresh_identifier:
  assumes "distinct (map fst triples)" and "(g, t, i) \<in> set triples"
    and "strip i = [] \<or> 1 < length (holders (triple_ids triples) (strip i))"
  shows "\<exists>v. map_of (new_id_mapping_of prefixes triples) g = Some v \<and>
     v \<notin> set (existing_unique_ids (analyze_existing_ids (existing_ids_of triples))) \<and>
     (\<forall>g'. g' \<noteq> g \<longrightarrow> map_of (new_id_mapping_of prefixes triples) g' \<noteq> Some v)"
proof -
  let ?a = "analyze_existing_ids (existing_ids_of triples)"
  let ?m = "new_id_mapping_of prefixes triples"
  have m: "?m = generate_new_ids_for_problem_elements prefixes (elements_of triples) ?a"
    by (simp add: new_id_mapping_of_def)
  from assms have "g \<in> fst ` set ?m"
    by (simp add: mapping_keys_of_triples [OF assms(1,2)])
  then obtain v where v: "(g, v) \<in> set ?m" by auto
  have keys: "distinct (map fst ?m)"
    unfolding m by (rule generated_keys_distinct)
  with v have "map_of ?m g = Some v" by simp
  moreover from v have "v \<notin> set (existing_unique_ids ?a)"
    using generated_values [of prefixes "elements_of triples" ?a] unfolding m by force
  moreover have "map_of ?m g' \<noteq> Some v" if "g' \<noteq> g" for g'
  proof
    assume "map_of ?m g' = Some v"
    then have "(g', v) \<in> set ?m" by (rule map_of_SomeD)
    moreover have "distinct (map snd ?m)"
      using generated_values [of prefixes "elements_of triples" ?a] unfolding m by simp
    ultimately have "g' = g" using v by (blast intro: same_value_same_key)
    with that show False by simp
  qed
  ultimately show ?thesis by blast
qed

theorem needy_element_gets_fresh_identifier_witness:
  "distinct (map fst example_triples) \<and>
   (E2, py_str ''Wall'', py_str ''W-001'') \<in> set example_triples \<and>
   1 < length (holders (triple_ids example_triples) (strip (py_str ''W-001''))) \<and>
   (\<exists>v. map_of (new_id_mapping_of element_prefixes example_triples) E2 = Some v \<and>
     v \<notin> set (existing_unique_ids (analyze_existing_ids (existing_ids_of example_triples))) \<and>
     map_of (new_id_mapping_of element_prefixes example_triples) E1 \<noteq> Some v)"
proof -
  have h: "distinct (map fst example_triples)"
    "(E2, py_str ''Wall'', py_str ''W-001'') \<in> set example_triples"
    "1 < length (holders (triple_ids example_triples) (strip (py_str ''W-001'')))"
    by (simp_all add: example_holders) (simp_all add: example_triples_def py_str_def)
  from h(3) have "strip (py_str ''W-001'') = [] \<or>
      1 < length (holders (triple_ids example_triples) (strip (py_str ''W-001'')))" ..
  from needy_element_gets_fresh_identifier [OF h(1,2) this, of element_prefixes]
  obtain v where "map_of (new_id_mapping_of element_prefixes example_triples) E2 = Some v"
    "v \<notin> set (existing_unique_ids (analyze_existing_ids (existing_ids_of example_triples)))"
    "\<forall>g'. g' \<noteq> E2 \<longrightarrow> map_of (new_id_mapping_of element_prefixes example_triples) g' \<noteq> Some v"
    by blast
  moreover from this(3) have "map_of (new_id_mapping_of element_prefixes example_triples) E1 \<noteq> Some v"
    by simp
  ultimately show ?thesis using h by blast
qed

subsection \<open>The rendering of the counter\<close>

lemma str_int_digits: "list_all (\<lambda>c. 48 \<le> c \<and> c \<le> 57) (str_int n)"
proof (induction n rule: str_int.induct)
  case (1 n)
  show ?case
  proof (cases "n < 10")
    case True
    then show ?thesis by (simp add: str_int.simps [of n])
  next
    case False
    with 1 have "list_all (\<lambda>c. 48 \<le> c \<and> c \<le> 57) (str_int (n div 10))" by simp
    moreover have "n mod 10 \<le> 9" by simp
    ultimately show ?thesis using False
      by (simp add: str_int.simps [of n] del: mod_less_divisor)
  qed
qed

lemma str_int_length:
  "n < 10 ^ length (str_int n) \<and> (1 < length (str_int n) \<longrightarrow> 10 ^ (length (str_int n) - 1) \<le> n)"
proof (induction n rule: str_int.induct)
  case (1 n)
  show ?case
  proof (cases "n < 10")
    case True
    then show ?thesis by (simp add: str_int.simps [of n])
  next
    case False
    let ?l = "length (str_int (n div 10))"
    from False 1 have IH: "n div 10 < 10 ^ ?l" "1 < ?l \<longrightarrow> 10 ^ (?l - 1) \<le> n div 10"
      by simp_all
    have len: "length (str_int n) = Suc ?l"
      using False by (simp add: str_int.simps [of n])
    from IH(1) have "n div 10 + 1 \<le> 10 ^ ?l" by simp
    then have "10 * (n div 10 + 1) \<le> 10 * 10 ^ ?l" by (rule mult_le_mono2)
    moreover have "n < 10 * (n div 10 + 1)" by presburger
    ultimately have upper: "n < 10 ^ Suc ?l" by simp
    have lower: "10 ^ ?l \<le> n"
    proof (cases "1 < ?l")
      case True
      with IH(2) have "10 * 10 ^ (?l - 1) \<le> 10 * (n div 10)" by simp
      moreover from True have "(10::nat) * 10 ^ (?l - 1) = 10 ^ ?l"
        by (cases ?l) simp_all
      moreover have "10 * (n div 10) \<le> n" by presburger
      ultimately show ?thesis by simp
    next
      case False
      moreover have "0 < ?l" by (subst str_int.simps) simp
      ultimately have "?l = 1" by linarith
      with \<open>\<not> n < 10\<close> show ?thesis by simp
    qed
    from upper lower show ?thesis by (simp add: len)
  qed
qed

lemma str_int_short: "n < 1000 \<Longrightarrow> length (str_int n) \<le> 3"
proof (rule ccontr)
  assume n: "n < 1000" and "\<not> length (str_int n) \<le> 3"
  then have l: "4 \<le> length (str_int n)" by simp
  then have "(10::nat) ^ 3 \<le> 10 ^ (length (str_int n) - 1)"
    by (intro power_increasing) simp_all
  moreover from l str_int_length [of n] have "10 ^ (length (str_int n) - 1) \<le> n" by simp
  ultimately show False using n by simp
qed

lemma str_int_long: "1000 \<le> n \<Longrightarrow> 4 \<le> length (str_int n)"
proof (rule ccontr)
  assume n: "1000 \<le> n" and "\<not> 4 \<le> length (str_int n)"
  then have "length (str_int n) \<le> 3" by simp
  then have "(10::nat) ^ length (str_int n) \<le> 10 ^ 3"
    by (intro power_increasing) simp_all
  moreover from str_int_length [of n] have "n < 10 ^ length (str_int n)" by simp
  ultimately show False using n by simp
qed

lemma str_int_nonempty: "0 < length (str_int n)"
  by (subst str_int.simps) simp

lemma format_03d_length: "length (format_03d n) = max 3 (length (str_int n))"
  by (simp add: format_03d_def Let_def)

lemma new_id_1000: "new_id (py_str ''W'') 1000 = py_str ''W-1000''"
proof -
  have "str_int 1000 = [49, 48, 48, 48]"
    by (simp add: str_int.simps [of 1000] str_int.simps [of 100] str_int.simps [of 10]
        str_int.simps [of "Suc 0"])
  then show ?thesis by (simp add: new_id_def format_03d_def py_str_def)
qed

subsection \<open>A run of elements of one type that all lack an identifier\<close>

lemma assign_fresh_run:
  assumes "\<forall>k \<ge> c. new_id p k \<notin> set r" and "distinct (map guid es)"
    and "guid ` set es \<inter> fst ` set m = {}"
  shows "fst (assign_type_elements p c es (m, r)) =
     m @ zip (map guid es) (map (new_id p) [c..<c + length es])"
  using assms
proof (induction es arbitrary: c m r)
  case Nil
  show ?case by simp
next
  case (Cons e es)
  from Cons.prems(1) have here: "find_free p c r = c"
    by (simp add: find_free_here)
  from Cons.prems(3) have fresh: "AList.update (guid e) (new_id p c) m = m @ [(guid e, new_id p c)]"
    by (intro update_fresh) auto
  have free: "\<forall>k \<ge> c + 1. new_id p k \<notin> set (set_add (new_id p c) r)"
  proof (intro allI impI)
    fix k
    assume k: "c + 1 \<le> k"
    then have "k \<noteq> c" by simp
    then have "new_id p k \<noteq> new_id p c" using new_id_inj by blast
    moreover from k Cons.prems(1) have "new_id p k \<notin> set r" by simp
    ultimately show "new_id p k \<notin> set (set_add (new_id p c) r)" by simp
  qed
  from Cons.prems(2) have d: "distinct (map guid es)" by simp
  from Cons.prems(2,3) have disj: "guid ` set es \<inter> fst ` set (m @ [(guid e, new_id p c)]) = {}"
    by auto
  have "fst (assign_type_elements p c (e # es) (m, r)) =
      fst (assign_type_elements p (c + 1) es (m @ [(guid e, new_id p c)], set_add (new_id p c) r))"
    by (simp add: Let_def here fresh)
  also have "\<dots> = (m @ [(guid e, new_id p c)]) @
      zip (map guid es) (map (new_id p) [c + 1..<c + 1 + length es])"
    using free d disj by (rule Cons.IH)
  also have "\<dots> = m @ zip (map guid (e # es)) (map (new_id p) (c # [c + 1..<c + 1 + length es]))"
    by simp
  also have "c # [c + 1..<c + 1 + length es] = [c..<c + length (e # es)]"
    by (subst (2) upt_rec) (simp del: upt_Suc)
  finally show ?case .
qed

lemma remdups_constant: "ys \<noteq> [] \<Longrightarrow> \<forall>y \<in> set ys. y = t \<Longrightarrow> remdups ys = [t]"
proof (induction ys)
  case Nil
  then show ?case by simp
next
  case (Cons y ys)
  then show ?case by (cases ys) auto
qed

lemma one_type_all_absent:
  assumes d: "distinct (map fst triples)"
    and same: "list_all (\<lambda>(g, t', i). t' = t \<and> strip i = []) triples"
  shows "new_id_mapping_of prefixes triples =
     zip (map fst triples) (map (new_id (prefix_of prefixes t)) [1..<1 + length triples])"
proof (cases "triples = []")
  case True
  have "existing_ids_of [] = ([] :: ('a \<times> pystr) list)"
    by (simp add: existing_ids_of_def elements_of_def get_existing_ids_bulk_def)
  then have "elements_needing_new_ids (analyze_existing_ids (existing_ids_of ([] :: ('a \<times> pystr \<times> pystr) list))) = []"
    by (simp add: analyze_existing_ids_def set_of_list_def)
  with True show ?thesis
    by (simp add: new_id_mapping_of_def generate_new_ids_for_problem_elements_def)
next
  case False
  let ?a = "analyze_existing_ids (existing_ids_of triples)"
  let ?es = "elements_of triples"
  let ?ids = "triple_ids triples"
  have ids: "existing_ids_of triples = ?ids"
    using d by (rule existing_ids_of_distinct)
  have blank: "strip i = []" if "(g, i) \<in> set ?ids" for g i
  proof -
    from that obtain t' where "(g, t', i) \<in> set triples"
      by (auto simp: triple_ids_def)
    with same show ?thesis by (auto simp: list_all_iff)
  qed
  have ty: "type e = t" if "e \<in> set ?es" for e
  proof -
    from that obtain g t' i where "(g, t', i) \<in> set triples" "e = \<lparr>guid = g, type = t'\<rparr>"
      by (auto simp: elements_of_def)
    with same show ?thesis by (auto simp: list_all_iff)
  qed
  have no_holders: "holders ?ids s = []" if "s \<noteq> []" for s
    unfolding holders_def filter_empty_conv map_is_Nil_conv using that blank by auto
  have "set (existing_unique_ids ?a) = {s. s \<noteq> [] \<and> length (holders ?ids s) = 1}"
    unfolding ids by (rule analysis_unique)
  also have "\<dots> = {}" using no_holders by auto
  finally have unique: "existing_unique_ids ?a = []" by simp
  have "set (elements_needing_new_ids ?a) =
      {g. \<exists>i. (g, i) \<in> set ?ids \<and> (strip i = [] \<or> 1 < length (holders ?ids (strip i)))}"
    unfolding ids by (rule analysis_needing)
  also have "\<dots> = fst ` set ?ids" using blank by force
  also have "\<dots> = fst ` set triples" by (force simp: triple_ids_def)
  finally have needing: "set (elements_needing_new_ids ?a) = fst ` set triples" .
  from False needing have ne: "elements_needing_new_ids ?a \<noteq> []" by auto
  have "guid e \<in> fst ` set triples" if "e \<in> set ?es" for e
    using that guids_of_elements [of triples] by blast
  then have problem: "problem_elements ?es (elements_needing_new_ids ?a) = ?es"
    unfolding problem_elements_def needing by (simp add: filter_id_conv)
  from False have es_ne: "?es \<noteq> []" by (simp add: elements_of_def)
  have "remdups (rev (map type ?es)) = [t]"
  proof (rule remdups_constant)
    from es_ne show "rev (map type ?es) \<noteq> []" by simp
    from ty show "\<forall>y \<in> set (rev (map type ?es)). y = t" by auto
  qed
  then have types: "set_of_list (map type ?es) = [t]"
    by (simp add: set_of_list_def)
  from ty have all: "filter (\<lambda>e. type e = t) ?es = ?es"
    by (simp add: filter_id_conv)
  have guids: "map guid ?es = map fst triples"
    by (simp add: elements_of_def case_prod_beta)
  have "generate_new_ids_for_problem_elements prefixes ?es ?a =
      fst (foldl (assign_type prefixes) ([], set_of_list []) (elements_by_type ?es))"
    using ne by (simp add: generate_new_ids_for_problem_elements_def Let_def problem unique)
  also have "elements_by_type ?es = [(t, ?es)]"
    by (simp add: elements_by_type_eq types all)
  also have "fst (foldl (assign_type prefixes) ([], set_of_list []) [(t, ?es)]) =
      fst (assign_type_elements (prefix_of prefixes t) 1 ?es ([], []))"
    by (simp add: assign_type_from_1 set_of_list_def del: One_nat_def)
  also have "\<dots> = [] @ zip (map guid ?es)
      (map (new_id (prefix_of prefixes t)) [1..<1 + length ?es])"
  proof (rule assign_fresh_run)
    show "\<forall>k\<ge>1. new_id (prefix_of prefixes t) k \<notin> set []" by simp
    from d show "distinct (map guid ?es)" by (simp add: guids)
    show "guid ` set ?es \<inter> fst ` set [] = {}" by simp
  qed
  also have "\<dots> = zip (map fst triples)
      (map (new_id (prefix_of prefixes t)) [1..<1 + length triples])"
    unfolding guids by (simp add: elements_of_def del: upt_Suc One_nat_def)
  finally show ?thesis by (simp only: new_id_mapping_of_def)
qed

lemma one_type_all_absent_nth:
  assumes "distinct (map fst triples)"
    and "list_all (\<lambda>(g, t', i). t' = t \<and> strip i = []) triples"
    and "j < length triples"
  shows "map_of (new_id_mapping_of prefixes triples) (fst (triples ! j)) =
     Some (new_id (prefix_of prefixes t) (j + 1))"
proof -
  have "map_of (zip (map fst triples) (map (new_id (prefix_of prefixes t)) [1..<1 + length triples]))
      (map fst triples ! j) = Some (map (new_id (prefix_of prefixes t)) [1..<1 + length triples] ! j)"
    using assms(1,3) by (intro map_of_zip_nth) simp_all
  with assms show ?thesis
    by (simp add: one_type_all_absent del: upt_Suc)
qed

lemma wall_run_facts:
  "distinct (map fst (wall_run n))"
  "list_all (\<lambda>(g, t', i). t' = py_str ''Wall'' \<and> strip i = []) (wall_run n)"
  "length (wall_run n) = n"
  "j < n \<Longrightarrow> fst (wall_run n ! j) = j"
  by (simp_all add: wall_run_def comp_def list_all_iff del: upt_Suc)

text \<open>
  C7. The generated identifiers pad the counter with zeros to three digits at least, and a
  counter beyond 999 is not cut: it is rendered with all its four or more digits (counter
  1000 with prefix W gives \<open>W-1000\<close>). The rendering consists of digits only and reads back
  as the counter, so different counters, below or above 999, give different identifiers.
  When the elements of a snapshot are all of one type and all lack an identifier, the
  element at position \<open>j\<close> (counted from 0) is assigned the identifier with counter \<open>j + 1\<close>,
  however many elements there are: the thousandth gets the counter 1000, uncut.
\<close>

theorem counter_is_padded_never_truncated:
  "3 \<le> length (format_03d n) \<and>
   (n < 1000 \<longrightarrow> length (format_03d n) = 3) \<and>
   (1000 \<le> n \<longrightarrow> format_03d n = str_int n \<and> 4 \<le> length (format_03d n)) \<and>
   list_all (\<lambda>c. 48 \<le> c \<and> c \<le> 57) (format_03d n) \<and>
   int_of_digits (format_03d n) = n \<and>
   (new_id prefix m = new_id prefix n \<longleftrightarrow> m = n) \<and>
   new_id (py_str ''W'') 1000 = py_str ''W-1000'' \<and>
   (distinct (map fst triples) \<and> list_all (\<lambda>(g, t', i). t' = t \<and> strip i = []) triples \<and>
    j < length triples \<longrightarrow>
    map_of (new_id_mapping_of prefixes triples) (fst (triples ! j)) =
      Some (new_id (prefix_of prefixes t) (j + 1)))"
proof -
  have a: "3 \<le> length (format_03d n)"
    by (simp add: format_03d_length)
  have b: "n < 1000 \<longrightarrow> length (format_03d n) = 3"
    using str_int_short [of n] by (auto simp: format_03d_length)
  have c: "1000 \<le> n \<longrightarrow> format_03d n = str_int n \<and> 4 \<le> length (format_03d n)"
    using str_int_long [of n] by (auto simp: format_03d_def Let_def)
  have d: "list_all (\<lambda>c. 48 \<le> c \<and> c \<le> 57) (format_03d n)"
    using str_int_digits [of n] by (auto simp: format_03d_def Let_def list_all_iff)
  have e: "new_id prefix m = new_id prefix n \<longleftrightarrow> m = n"
    using new_id_inj by blast
  have f: "distinct (map fst triples) \<and> list_all (\<lambda>(g, t', i). t' = t \<and> strip i = []) triples \<and>
      j < length triples \<longrightarrow>
      map_of (new_id_mapping_of prefixes triples) (fst (triples ! j)) =
        Some (new_id (prefix_of prefixes t) (j + 1))"
    using one_type_all_absent_nth [of triples t j prefixes] by blast
  from a b c d e f int_of_digits_format_03d [of n] new_id_1000 show ?thesis
    by blast
qed

theorem counter_is_padded_never_truncated_witness:
  "(7::nat) < 1000 \<and> format_03d 7 = py_str ''007'' \<and> length (format_03d 7) = 3 \<and>
   (1000::nat) \<le> 1234 \<and> format_03d 1234 = str_int 1234 \<and> 4 \<le> length (format_03d 1234) \<and>
   distinct (map fst (wall_run 1001)) \<and>
   list_all (\<lambda>(g, t', i). t' = py_str ''Wall'' \<and> strip i = []) (wall_run 1001) \<and>
   999 < length (wall_run 1001) \<and>
   map_of (new_id_mapping_of element_prefixes (wall_run 1001)) 999 = Some (py_str ''W-1000'')"
proof -
  note T7 = counter_is_padded_never_truncated [of 7 "[]" 7 "[]" "[]" 0 Map.empty]
  note T1234 = counter_is_padded_never_truncated [of 1234 "[]" 1234 "[]" "[]" 0 Map.empty]
  note Trun = counter_is_padded_never_truncated [of 0 "[]" 0 "wall_run 1001" "py_str ''Wall''"
      999 element_prefixes]
  have small: "(7::nat) < 1000" and big: "(1000::nat) \<le> 1234"
    by simp_all
  have p7: "format_03d 7 = py_str ''007''"
    by (simp add: format_03d_1digit py_str_def)
  from small have l7: "length (format_03d 7) = 3"
    by (rule T7 [THEN conjunct2, THEN conjunct1, THEN mp])
  from big have l1234: "format_03d 1234 = str_int 1234 \<and> 4 \<le> length (format_03d 1234)"
    by (rule T1234 [THEN conjunct2, THEN conjunct2, THEN conjunct1, THEN mp])
  have len: "999 < length (wall_run 1001)"
    by (simp only: wall_run_facts(3) Num.less_num_simps Num.numeral_less_iff)
  have h: "distinct (map fst (wall_run 1001)) \<and>
      list_all (\<lambda>(g, t', i). t' = py_str ''Wall'' \<and> strip i = []) (wall_run 1001) \<and>
      999 < length (wall_run 1001)"
    using wall_run_facts(1,2) [of 1001] len by (intro conjI)
  then have "map_of (new_id_mapping_of element_prefixes (wall_run 1001)) (fst (wall_run 1001 ! 999)) =
      Some (new_id (prefix_of element_prefixes (py_str ''Wall'')) (999 + 1))"
    by (rule Trun [THEN conjunct2, THEN conjunct2, THEN conjunct2, THEN conjunct2, THEN conjunct2,
          THEN conjunct2, THEN conjunct2, THEN mp])
  moreover have "fst (wall_run 1001 ! 999) = 999"
    by (rule wall_run_facts(4)) simp
  moreover have "new_id (prefix_of element_prefixes (py_str ''Wall'')) (999 + 1) = py_str ''W-1000''"
    by (simp add: prefix_examples new_id_1000)
  ultimately have run: "map_of (new_id_mapping_of element_prefixes (wall_run 1001)) 999 =
      Some (py_str ''W-1000'')"
    by (simp only:)
  note l1234 [THEN conjunct1] l1234 [THEN conjunct2]
  with small big p7 l7 wall_run_facts(1,2) [of 1001] len run show ?thesis
    by (intro conjI)
qed

subsection \<open>Independence of the iteration order of the sets\<close>

lemma assign_type_elements_cong:
  "set r = set r' \<Longrightarrow>
   fst (assign_type_elements prefix counter es (m, r)) =
     fst (assign_type_elements prefix counter es (m, r')) \<and>
   set (snd (assign_type_elements prefix counter es (m, r))) =
     set (snd (assign_type_elements prefix counter es (m, r')))"
proof (induction es arbitrary: counter m r r')
  case Nil
  then show ?case by simp
next
  case (Cons e es)
  from Cons.prems have c: "find_free prefix counter r = find_free prefix counter r'"
    by (rule find_free_cong)
  let ?c = "find_free prefix counter r'"
  from Cons.prems have "set (set_add (new_id prefix ?c) r) = set (set_add (new_id prefix ?c) r')"
    by simp
  from Cons.IH [OF this] show ?case
    by (simp add: Let_def c)
qed

lemma assign_types_cong:
  "fst st = fst st' \<Longrightarrow> set (snd st) = set (snd st') \<Longrightarrow>
   fst (foldl (assign_type prefixes) st items) = fst (foldl (assign_type prefixes) st' items)"
proof (induction items arbitrary: st st')
  case Nil
  then show ?case by simp
next
  case (Cons item items)
  obtain t es where item: "item = (t, es)" by (cases item)
  obtain m r where st: "st = (m, r)" by (cases st)
  obtain m' r' where st': "st' = (m', r')" by (cases st')
  from Cons.prems have m: "m' = m" and r: "set r = set r'"
    by (simp_all add: st st')
  let ?p = "prefix_of prefixes t"
  from r have c: "find_free ?p 1 r = find_free ?p 1 r'"
    by (rule find_free_cong)
  have "fst (assign_type prefixes st item) = fst (assign_type prefixes st' item) \<and>
      set (snd (assign_type prefixes st item)) = set (snd (assign_type prefixes st' item))"
    using assign_type_elements_cong [OF r, of ?p "find_free ?p 1 r'" es m]
    by (simp add: item st st' m assign_type_pair c del: One_nat_def)
  then show ?case
    using Cons.IH [of "assign_type prefixes st item" "assign_type prefixes st' item"] by simp
qed

lemma generate_cong:
  assumes "set (elements_needing_new_ids a) = set (elements_needing_new_ids b)"
    and "set (existing_unique_ids a) = set (existing_unique_ids b)"
  shows "generate_new_ids_for_problem_elements prefixes elements a =
     generate_new_ids_for_problem_elements prefixes elements b"
proof -
  from assms(1) have e: "elements_needing_new_ids a = [] \<longleftrightarrow> elements_needing_new_ids b = []"
    by (metis set_empty)
  from assms(1) have p: "problem_elements elements (elements_needing_new_ids a) =
      problem_elements elements (elements_needing_new_ids b)"
    by (simp add: problem_elements_def)
  let ?items = "elements_by_type (problem_elements elements (elements_needing_new_ids b))"
  have f: "fst (foldl (assign_type prefixes) ([], set_of_list (existing_unique_ids a)) ?items) =
      fst (foldl (assign_type prefixes) ([], set_of_list (existing_unique_ids b)) ?items)"
    using assms(2) by (intro assign_types_cong) simp_all
  from e p show ?thesis
    by (simp add: generate_new_ids_for_problem_elements_def Let_def f)
qed

text \<open>
  C8. Generation is deterministic. The mapping is a value computed from the order of the
  input and the table of prefixes; the one thing Python does not fix from one run to the
  next is the order in which a set iterates over its members, and the mapping does not
  depend on it: two analyses whose sets have the same members, in whatever order, give the
  same mapping for the same elements and table, with the same keys in the same order.
\<close>

theorem generation_is_deterministic:
  assumes "set (elements_needing_new_ids a) = set (elements_needing_new_ids b)"
    and "set (existing_unique_ids a) = set (existing_unique_ids b)"
  shows "generate_new_ids_for_problem_elements prefixes elements a =
     generate_new_ids_for_problem_elements prefixes elements b"
  using assms by (rule generate_cong)

theorem generation_is_deterministic_witness:
  "elements_needing_new_ids (analyze_existing_ids (existing_ids_of example_triples)) = [E4, E1, E2] \<and>
   set (elements_needing_new_ids (analyze_existing_ids (existing_ids_of example_triples))) =
     set (elements_needing_new_ids
       ((analyze_existing_ids (existing_ids_of example_triples))
          \<lparr>elements_needing_new_ids := [E1, E2, E4]\<rparr>)) \<and>
   set (existing_unique_ids (analyze_existing_ids (existing_ids_of example_triples))) =
     set (existing_unique_ids
       ((analyze_existing_ids (existing_ids_of example_triples))
          \<lparr>elements_needing_new_ids := [E1, E2, E4]\<rparr>)) \<and>
   generate_new_ids_for_problem_elements element_prefixes (elements_of example_triples)
     (analyze_existing_ids (existing_ids_of example_triples)) =
   generate_new_ids_for_problem_elements element_prefixes (elements_of example_triples)
     ((analyze_existing_ids (existing_ids_of example_triples))
        \<lparr>elements_needing_new_ids := [E1, E2, E4]\<rparr>)"
proof -
  let ?a = "analyze_existing_ids (existing_ids_of example_triples)"
  let ?b = "?a\<lparr>elements_needing_new_ids := [E1, E2, E4]\<rparr>"
  have n: "elements_needing_new_ids ?a = [E4, E1, E2]"
    by (simp add: example_analysis)
  then have h: "set (elements_needing_new_ids ?a) = set (elements_needing_new_ids ?b)"
    "set (existing_unique_ids ?a) = set (existing_unique_ids ?b)"
    by auto
  from generation_is_deterministic [OF h] n h show ?thesis
    by blast
qed

subsection \<open>Totality and the fallback prefix\<close>


lemma triple_of_guid:
  assumes "distinct (map fst triples)" and "(g, t, i) \<in> set triples" and "(g, t', i') \<in> set triples"
  shows "t' = t"
proof -
  from assms(1,2) have "map_of triples g = Some (t, i)" by simp
  moreover from assms(1,3) have "map_of triples g = Some (t', i')" by simp
  ultimately show ?thesis by simp
qed

lemma mapping_value_form:
  assumes "distinct (map fst triples)" and "(g, t, i) \<in> set triples"
    and "(g, v) \<in> set (new_id_mapping_of prefixes triples)"
  shows "\<exists>k \<ge> 1. v = new_id (prefix_of prefixes t) k"
proof -
  from assms(3) obtain e k where e: "e \<in> set (elements_of triples)" "guid e = g"
    and k: "1 \<le> k" "v = new_id (prefix_of prefixes (type e)) k"
    unfolding new_id_mapping_of_def by (blast dest: generated_entries)
  from e obtain t' i' where "(g, t', i') \<in> set triples" "type e = t'"
    by (auto simp: elements_of_def)
  with assms(1,2) have "type e = t" by (auto dest: triple_of_guid)
  with k show ?thesis by auto
qed



subsection \<open>The identifiers in the host after the run\<close>

lemma strip_unchanged:
  assumes "s \<noteq> []" and "\<not> isspace (hd s)" and "\<not> isspace (last s)"
  shows "strip s = s"
proof -
  from assms(2) have "dropWhile isspace s = s"
    by (simp add: dropWhile_eq_self_iff)
  moreover from assms(1,3) have "dropWhile isspace (rev s) = rev s"
    by (simp add: dropWhile_eq_self_iff hd_rev)
  ultimately show ?thesis by (simp add: strip_def)
qed

lemma new_id_stripped:
  assumes "p = [] \<or> \<not> isspace (hd p)"
  shows "strip (new_id p k) = new_id p k"
proof (rule strip_unchanged)
  show "new_id p k \<noteq> []" by (simp add: new_id_def)
  have "\<not> isspace 45" by (simp add: isspace_def)
  with assms show "\<not> isspace (hd (new_id p k))"
    by (cases p) (auto simp: new_id_def)
  have ne: "format_03d k \<noteq> []"
    using format_03d_length [of k] by auto
  then have "last (format_03d k) \<in> set (format_03d k)" by simp
  moreover have "list_all (\<lambda>c. 48 \<le> c \<and> c \<le> 57) (format_03d k)"
    using str_int_digits [of k] by (auto simp: format_03d_def Let_def list_all_iff)
  ultimately have "48 \<le> last (format_03d k) \<and> last (format_03d k) \<le> 57"
    by (simp add: list_all_iff)
  then have "\<not> isspace (last (format_03d k))" by (auto simp: isspace_def)
  with ne show "\<not> isspace (last (new_id p k))" by (simp add: new_id_def)
qed

lemma stored_identifiers_distinct:
  assumes d: "distinct (map fst triples)"
    and pre: "\<forall>t. prefix_of prefixes t = [] \<or> \<not> isspace (hd (prefix_of prefixes t))"
  shows "distinct (map (final_identifier (new_id_mapping_of prefixes triples)) triples)"
proof -
  let ?m = "new_id_mapping_of prefixes triples"
  let ?ids = "triple_ids triples"
  let ?a = "analyze_existing_ids (existing_ids_of triples)"
  let ?needy = "\<lambda>i. strip i = [] \<or> 1 < length (holders ?ids (strip i))"
  have m: "?m = generate_new_ids_for_problem_elements prefixes (elements_of triples) ?a"
    by (simp add: new_id_mapping_of_def)
  have keys: "distinct (map fst ?m)"
    unfolding m by (rule generated_keys_distinct)
  have vals: "distinct (map snd ?m)" and fresh: "snd ` set ?m \<inter> set (existing_unique_ids ?a) = {}"
    using generated_values [of prefixes "elements_of triples" ?a] unfolding m by simp_all
  have unique: "set (existing_unique_ids ?a) = {s. s \<noteq> [] \<and> length (holders ?ids s) = 1}"
    using d by (simp add: existing_ids_of_distinct analysis_unique)
  have assigned: "\<exists>v. (g, v) \<in> set ?m \<and> final_identifier ?m (g, t, i) = v \<and> strip v = v"
    if "(g, t, i) \<in> set triples" "?needy i" for g t i
  proof -
    from that have "g \<in> fst ` set ?m"
      by (simp add: mapping_keys_of_triples [OF d that(1)])
    then obtain v where v: "(g, v) \<in> set ?m" by auto
    with keys have "map_of ?m g = Some v" by simp
    then have "final_identifier ?m (g, t, i) = v" by (simp add: final_identifier_def)
    moreover from mapping_value_form [OF d that(1) v] obtain k
      where "v = new_id (prefix_of prefixes t) k" by auto
    with pre have "strip v = v" by (simp add: new_id_stripped)
    ultimately show ?thesis using v by blast
  qed
  have kept: "final_identifier ?m (g, t, i) = i \<and> strip i \<noteq> [] \<and> holders ?ids (strip i) = [g]"
    if "(g, t, i) \<in> set triples" "\<not> ?needy i" for g t i
  proof -
    from that have "g \<notin> fst ` set ?m"
      by (simp add: mapping_keys_of_triples [OF d that(1)])
    then have "map_of ?m g = None" by (simp add: map_of_eq_None_iff)
    then have "final_identifier ?m (g, t, i) = i" by (simp add: final_identifier_def)
    moreover from that(1) have "(g, i) \<in> set ?ids" by (force simp: triple_ids_def)
    then have "g \<in> set (holders ?ids (strip i))" by (auto simp: in_holders)
    with that(2) have "holders ?ids (strip i) = [g]"
      by (cases "holders ?ids (strip i)") auto
    ultimately show ?thesis using that(2) by simp
  qed
  have "inj_on (final_identifier ?m) (set triples)"
  proof (rule inj_onI)
    fix x y
    assume x: "x \<in> set triples" and y: "y \<in> set triples"
      and eq: "final_identifier ?m x = final_identifier ?m y"
    obtain g t i where xt: "x = (g, t, i)" by (cases x)
    obtain g' t' i' where yt: "y = (g', t', i')" by (cases y)
    have "g = g'"
    proof (cases "?needy i")
      case True
      from assigned [OF x [unfolded xt] True] obtain v
        where v: "(g, v) \<in> set ?m" "final_identifier ?m (g, t, i) = v" "strip v = v" by blast
      show ?thesis
      proof (cases "?needy i'")
        case True
        from assigned [OF y [unfolded yt] True] obtain v'
          where v': "(g', v') \<in> set ?m" "final_identifier ?m (g', t', i') = v'" by blast
        with v eq have "(g', v) \<in> set ?m" by (simp add: xt yt)
        with vals v(1) show ?thesis by (blast intro: same_value_same_key)
      next
        case False
        from kept [OF y [unfolded yt] False] v eq
        have "strip v \<noteq> []" "holders ?ids (strip v) = [g']" by (simp_all add: xt yt)
        with v(3) have "v \<in> set (existing_unique_ids ?a)" by (simp add: unique)
        with fresh v(1) show ?thesis by force
      qed
    next
      case False
      from kept [OF x [unfolded xt] False]
      have k: "final_identifier ?m (g, t, i) = i" "strip i \<noteq> []" "holders ?ids (strip i) = [g]"
        by simp_all
      show ?thesis
      proof (cases "?needy i'")
        case True
        from assigned [OF y [unfolded yt] True] obtain v'
          where v': "(g', v') \<in> set ?m" "final_identifier ?m (g', t', i') = v'" "strip v' = v'"
          by blast
        with k eq have "strip v' \<noteq> []" "holders ?ids (strip v') = [g]" by (simp_all add: xt yt)
        with v'(3) have "v' \<in> set (existing_unique_ids ?a)" by (simp add: unique)
        with fresh v'(1) show ?thesis by force
      next
        case False
        from kept [OF y [unfolded yt] False]
        have "final_identifier ?m (g', t', i') = i'" "holders ?ids (strip i') = [g']"
          by simp_all
        with k eq show ?thesis by (simp add: xt yt)
      qed
    qed
    moreover from d x y have "fst x = fst y \<Longrightarrow> x = y"
      by (meson distinct_map inj_onD)
    ultimately show "x = y" by (simp add: xt yt)
  qed
  moreover from d have "distinct triples" by (simp add: distinct_map)
  ultimately show ?thesis by (simp add: distinct_map)
qed

lemma table_prefixes_not_blank:
  "prefix_of element_prefixes t = [] \<or> \<not> isspace (hd (prefix_of element_prefixes t))"
  by (simp add: prefix_of_def element_prefixes_def py_str_def isspace_def)

text \<open>
  With the table of the source every prefix starts with a letter, so after the run no two
  elements of a snapshot hold the same identifier.
\<close>

lemma stored_identifiers_distinct_table:
  "distinct (map fst triples) \<Longrightarrow>
   distinct (map (final_identifier (new_id_mapping_of element_prefixes triples)) triples)"
  by (rule stored_identifiers_distinct) (simp_all add: table_prefixes_not_blank)



section \<open>What the specification says of the metadata extractor\<close>










end
